theory Spec2Isabelle
  imports Main
begin

section \<open>Strings and the string primitives the parser calls\<close>

text \<open>
  The component \<^verbatim>\<open>MarkdownLatex\<close> turns a chat message into a list of display elements.
  A JavaScript string is modelled as a \<^typ>\<open>string\<close>, one \<^typ>\<open>char\<close> per code unit,
  for the code units \<^verbatim>\<open>U+0000\<close> to \<^verbatim>\<open>U+00FF\<close>. Indices are natural numbers, as in the
  source.

  \<^verbatim>\<open>\s\<close> and \<^verbatim>\<open>trim()\<close> use the same character set (white space and line terminators):
  in this range TAB, LF, VT, FF, CR, SPACE and NBSP.
\<close>

definition isSpace :: "char \<Rightarrow> bool" where
  "isSpace c = (c = CHR 0x09 \<or> c = CHR 0x0A \<or> c = CHR 0x0B \<or> c = CHR 0x0C \<or> c = CHR 0x0D
     \<or> c = CHR 0x20 \<or> c = CHR 0xA0)"

text \<open>\<^verbatim>\<open>\d\<close> is \<^verbatim>\<open>[0-9]\<close>.\<close>

definition isDigit :: "char \<Rightarrow> bool" where
  "isDigit c = (c \<in> set ''0123456789'')"

definition trim :: "string \<Rightarrow> string" where
  "trim s = rev (dropWhile isSpace (rev (dropWhile isSpace s)))"

text \<open>\<^verbatim>\<open>s.startsWith(p)\<close>, \<^verbatim>\<open>s.endsWith(p)\<close> and \<^verbatim>\<open>s.slice(i, j)\<close> for \<open>0 \<le> i\<close>, \<open>0 \<le> j\<close>
  (both clamped to the length; an empty string when \<open>j \<le> i\<close>).\<close>

definition startsWith :: "string \<Rightarrow> string \<Rightarrow> bool" where
  "startsWith s p = (take (length p) s = p)"

definition endsWith :: "string \<Rightarrow> string \<Rightarrow> bool" where
  "endsWith s p = (length p \<le> length s \<and> drop (length s - length p) s = p)"

definition slice :: "string \<Rightarrow> nat \<Rightarrow> nat \<Rightarrow> string" where
  "slice s i j = take (j - i) (drop i s)"

text \<open>\<^verbatim>\<open>s.split(d)\<close> for a separator \<open>d\<close> of one character: the pieces between the
  separators, empty pieces included; the empty string gives one empty piece.\<close>

fun split_char :: "char \<Rightarrow> string \<Rightarrow> string list" where
  "split_char d [] = [[]]"
| "split_char d (c # cs) =
     (if c = d then [] # split_char d cs
      else (case split_char d cs of
              [] \<Rightarrow> [[c]]
            | x # xs \<Rightarrow> (c # x) # xs))"

section \<open>Display elements\<close>

text \<open>
  The source builds React elements. Each kind of element it builds is a constructor:
  a bare string is \<open>PlainText\<close>, \<^verbatim>\<open><strong>\<close> is \<open>Bold\<close>, \<^verbatim>\<open><em>\<close> is \<open>Italic\<close>,
  the grey \<^verbatim>\<open><code>\<close> is \<open>InlineCode\<close>, \<^verbatim>\<open><a href>\<close> is \<open>Link\<close>, the \<^verbatim>\<open><div>\<close> holding
  a \<^verbatim>\<open><BlockMath>\<close> is \<open>BlockMath\<close>, \<^verbatim>\<open><InlineMath>\<close> is \<open>InlineMath\<close>, the red
  \<^verbatim>\<open><code className="text-red-500">\<close> of the two \<^verbatim>\<open>catch\<close> branches is \<open>ErrorCode\<close>,
  \<^verbatim>\<open><br />\<close> is \<open>LineBreak\<close>, the \<^verbatim>\<open><span className="block pl-4">\<close> of a list line is
  \<open>ListItem\<close>, the \<^verbatim>\<open><table>\<close> is \<open>Table\<close> and the \<^verbatim>\<open><span>\<close> that
  \<^verbatim>\<open>renderMarkdownTable\<close> returns for fewer than two lines is \<open>RawSpan\<close>.

  The first child of a list line is its label: the fixed bullet glyph (\<^verbatim>\<open>U+2022\<close>) for a
  bullet line, the captured digits followed by a full stop for a numbered line.
\<close>

datatype label = BulletGlyph | Numeral string

datatype node =
    PlainText string
  | Bold string
  | Italic string
  | InlineCode string
  | Link string string
  | BlockMath string
  | InlineMath string
  | ErrorCode string
  | LineBreak
  | ListItem label "node list"
  | Table "string list" "string list list"
  | RawSpan string

section \<open>Regular expressions\<close>

text \<open>
  A regular expression of the source is modelled by a function that tries it at one
  position: it takes the rest of the text from that position and returns what the
  match consumed. \<open>exec_from\<close> is \<^verbatim>\<open>RegExp.prototype.exec\<close> of a global expression whose
  \<^verbatim>\<open>lastIndex\<close> is \<open>i\<close>: the first position from \<open>i\<close> on where the expression
  matches, with what the matcher returned there; no match when \<open>i\<close> is past the end.
  The matcher also gets the position, for \<^verbatim>\<open>^\<close>.
\<close>

function exec_from :: "(nat \<Rightarrow> string \<Rightarrow> 'm option) \<Rightarrow> string \<Rightarrow> nat \<Rightarrow> (nat \<times> 'm) option" where
  "exec_from m text i =
     (if length text < i then None
      else (case m i (drop i text) of
              Some r \<Rightarrow> Some (i, r)
            | None \<Rightarrow> exec_from m text (Suc i)))"
  by pat_completeness auto
termination
  by (relation "measure (\<lambda>(m, text, i). Suc (length text) - i)") auto

declare exec_from.simps [simp del]

text \<open>
  The pattern \<^verbatim>\<open>OPEN([^...]+)CLOSE\<close>: the literal \<open>opn\<close>, a longest run of one or more
  characters of the class \<open>ok\<close>, the literal \<open>cls\<close>. The first character of \<open>cls\<close>
  is outside the class in every use, so giving back characters of the run never
  helps: the character after a shorter run is in the class and is not the first
  character of \<open>cls\<close>. Returns the captured run and the length consumed.
\<close>

definition delimited :: "string \<Rightarrow> (char \<Rightarrow> bool) \<Rightarrow> string \<Rightarrow> string \<Rightarrow> (string \<times> nat) option" where
  "delimited opn ok cls s =
     (if startsWith s opn then
        (let r = drop (length opn) s;
             c = takeWhile ok r
         in if c \<noteq> [] \<and> startsWith (drop (length c) r) cls
            then Some (c, length opn + length c + length cls)
            else None)
      else None)"

section \<open>parseInlineMarkdown\<close>

text \<open>
  The four entries of \<^verbatim>\<open>patterns\<close>, in the order of the source:
  \<^verbatim>\<open>/\*\*([^*]+)\*\*/g\<close>, \<^verbatim>\<open>/\*([^*]+)\*/g\<close>, \<^verbatim>\<open>/`([^`]+)`/g\<close> and
  \<^verbatim>\<open>/\[([^\]]+)\]\(([^)]+)\)/g\<close>. A match is the length of \<^verbatim>\<open>match[0]\<close> and the list of
  captured groups \<^verbatim>\<open>match[1..]\<close>.
\<close>

datatype pattern = PBold | PItalic | PCode | PLink

definition patterns :: "pattern list" where
  "patterns = [PBold, PItalic, PCode, PLink]"

fun regex :: "pattern \<Rightarrow> nat \<Rightarrow> string \<Rightarrow> (nat \<times> string list) option" where
  "regex PBold i s =
     (case delimited ''**'' (\<lambda>c. c \<noteq> CHR ''*'') ''**'' s of
        None \<Rightarrow> None
      | Some (c, n) \<Rightarrow> Some (n, [c]))"
| "regex PItalic i s =
     (case delimited ''*'' (\<lambda>c. c \<noteq> CHR ''*'') ''*'' s of
        None \<Rightarrow> None
      | Some (c, n) \<Rightarrow> Some (n, [c]))"
| "regex PCode i s =
     (case delimited [CHR 0x60] (\<lambda>c. c \<noteq> CHR 0x60) [CHR 0x60] s of
        None \<Rightarrow> None
      | Some (c, n) \<Rightarrow> Some (n, [c]))"
| "regex PLink i s =
     (case delimited ''['' (\<lambda>c. c \<noteq> CHR '']'') '']('' s of
        None \<Rightarrow> None
      | Some (c, n) \<Rightarrow>
          (case delimited [] (\<lambda>c. c \<noteq> CHR '')'') '')'' (drop n s) of
             None \<Rightarrow> None
           | Some (u, k) \<Rightarrow> Some (n + k, [c, u])))"

text \<open>\<^verbatim>\<open>pattern.render\<close>, called with \<^verbatim>\<open>match[1]\<close> and \<^verbatim>\<open>match[2]\<close> when the match has
  two groups and with \<^verbatim>\<open>match[1]\<close> otherwise. A group that is absent is
  \<^verbatim>\<open>undefined\<close>, which React renders as nothing.\<close>

definition group :: "string list \<Rightarrow> nat \<Rightarrow> string" where
  "group gs k = (if k < length gs then gs ! k else [])"

fun render :: "pattern \<Rightarrow> string list \<Rightarrow> node" where
  "render PBold gs = Bold (group gs 0)"
| "render PItalic gs = Italic (group gs 0)"
| "render PCode gs = InlineCode (group gs 0)"
| "render PLink gs = (if length gs = 2 then Link (group gs 0) (group gs 1) else Link (group gs 0) [])"

lemma startsWith_iff: "startsWith s p \<longleftrightarrow> (\<exists>r. s = p @ r)"
  unfolding startsWith_def
  by (metis append_eq_conv_conj append_take_drop_id)

lemma startsWith_drop_less: "startsWith (drop k r) (c # cs) \<Longrightarrow> k < length r"
  by (cases "k < length r") (auto simp: startsWith_def)

lemma delimited_SomeD:
  assumes "delimited opn ok cls s = Some (c, n)"
  shows "\<exists>rest. s = opn @ c @ cls @ rest" "c \<noteq> []" "\<forall>x\<in>set c. ok x"
    "n = length opn + length c + length cls"
proof -
  from assms obtain r where s: "s = opn @ r"
    by (auto simp: delimited_def startsWith_iff split: if_splits)
  from assms s have c: "c = takeWhile ok r" and ne: "c \<noteq> []"
    and cl: "startsWith (drop (length c) r) cls" and n: "n = length opn + length c + length cls"
    by (auto simp: delimited_def Let_def startsWith_iff split: if_splits)
  from cl obtain rest where "drop (length c) r = cls @ rest" by (auto simp: startsWith_iff)
  moreover have "r = c @ drop (length c) r" unfolding c
    by (metis takeWhile_dropWhile_id dropWhile_eq_drop)
  ultimately have "s = opn @ c @ cls @ rest" using s by simp
  then show "\<exists>rest. s = opn @ c @ cls @ rest" ..
  show "c \<noteq> []" by fact
  show "\<forall>x\<in>set c. ok x" unfolding c by (auto dest: set_takeWhileD)
  show "n = length opn + length c + length cls" by fact
qed

lemma delimited_SomeI:
  assumes "c \<noteq> []" "\<forall>x\<in>set c. ok x" "cls \<noteq> []" "\<not> ok (hd cls)"
  shows "delimited opn ok cls (opn @ c @ cls @ rest) = Some (c, length opn + length c + length cls)"
proof -
  have "takeWhile ok (c @ cls @ rest) = c"
    using assms by (cases cls) (auto simp: takeWhile_append)
  then show ?thesis using assms
    by (simp add: delimited_def startsWith_def Let_def)
qed

lemma delimited_bounds: "delimited opn ok cls s = Some (c, n) \<Longrightarrow> 0 < n \<and> n \<le> length s"
  using delimited_SomeD [of opn ok cls s c n] by auto

lemma regex_bounds: "regex p i s = Some (n, gs) \<Longrightarrow> 0 < n \<and> n \<le> length s"
proof (cases p)
  case PLink
  assume a: "regex p i s = Some (n, gs)"
  with PLink obtain c k u j where d1: "delimited ''['' (\<lambda>c. c \<noteq> CHR '']'') '']('' s = Some (c, k)"
    and d2: "delimited [] (\<lambda>c. c \<noteq> CHR '')'') '')'' (drop k s) = Some (u, j)" and n: "n = k + j"
    by (auto split: option.splits)
  from delimited_bounds [OF d1] delimited_bounds [OF d2] n show ?thesis by auto
qed (auto split: option.splits dest: delimited_bounds)

lemma exec_from_SomeD:
  "exec_from m t i = Some (idx, r) \<Longrightarrow>
     i \<le> idx \<and> idx \<le> length t \<and> m idx (drop idx t) = Some r
     \<and> (\<forall>j. i \<le> j \<and> j < idx \<longrightarrow> m j (drop j t) = None)"
proof (induction m t i rule: exec_from.induct)
  case (1 m t i)
  show ?case
  proof (cases "m i (drop i t)")
    case None
    with "1.prems" have le: "\<not> length t < i" and rec: "exec_from m t (Suc i) = Some (idx, r)"
      by (auto simp: exec_from.simps [of m t i] split: if_splits)
    from "1.IH" [OF le None rec] None show ?thesis
      by (auto simp: less_Suc_eq_le dest: le_neq_implies_less)
  next
    case (Some a)
    with "1.prems" show ?thesis
      by (auto simp: exec_from.simps [of m t i] split: if_splits)
  qed
qed

lemma exec_from_None:
  "exec_from m t i = None \<longleftrightarrow> (\<forall>j. i \<le> j \<and> j \<le> length t \<longrightarrow> m j (drop j t) = None)"
proof (induction m t i rule: exec_from.induct)
  case (1 m t i)
  show ?case
  proof (cases "length t < i")
    case True
    then show ?thesis by (auto simp: exec_from.simps [of m t i])
  next
    case False
    show ?thesis
    proof (cases "m i (drop i t)")
      case None
      from "1.IH" [OF False None] None False show ?thesis
        by (auto simp: exec_from.simps [of m t i] Suc_le_eq dest: le_neq_implies_less)
    next
      case (Some a)
      with False show ?thesis
        by (auto simp: exec_from.simps [of m t i] intro!: exI [of _ i])
    qed
  qed
qed

text \<open>
  \<^verbatim>\<open>while ((matches = pattern.regex.exec(currentText)) !== null) matchList.push(...)\<close>,
  started with \<^verbatim>\<open>lastIndex\<close> \<open>i\<close>: each entry is \<^verbatim>\<open>match.index\<close>, the length of
  \<^verbatim>\<open>match[0]\<close> and the groups. After a match \<^verbatim>\<open>lastIndex\<close> is the end of the match.
\<close>

function execAll :: "pattern \<Rightarrow> string \<Rightarrow> nat \<Rightarrow> (nat \<times> nat \<times> string list) list" where
  "execAll p text i =
     (case exec_from (regex p) text i of
        None \<Rightarrow> []
      | Some (idx, n, gs) \<Rightarrow> (idx, n, gs) # execAll p text (idx + n))"
  by pat_completeness auto
termination
proof (relation "measure (\<lambda>(p, text, i). Suc (length text) - i)")
  fix p :: pattern and t :: string and i idx n :: nat and x2 y and gs :: "string list"
  assume "exec_from (regex p) t i = Some x2" "(idx, y) = x2" "(n, gs) = y"
  then have e: "exec_from (regex p) t i = Some (idx, n, gs)" by simp
  from exec_from_SomeD [OF e] regex_bounds [of p idx "drop idx t" n gs]
  show "((p, t, idx + n), p, t, i) \<in> measure (\<lambda>(p, text, i). Suc (length text) - i)"
    by auto
qed simp

declare execAll.simps [simp del]

text \<open>
  The loop \<^verbatim>\<open>for (const { match } of matchList)\<close> with its variable \<^verbatim>\<open>lastIdx\<close>, and the
  remaining text pushed after it.
\<close>

fun renderMatches :: "pattern \<Rightarrow> string \<Rightarrow> (nat \<times> nat \<times> string list) list \<Rightarrow> nat \<Rightarrow> node list" where
  "renderMatches p text [] lastIdx =
     (if lastIdx < length text then [PlainText (drop lastIdx text)] else [])"
| "renderMatches p text ((idx, n, gs) # ms) lastIdx =
     (if lastIdx < idx then [PlainText (slice text lastIdx idx)] else [])
     @ [render p gs]
     @ renderMatches p text ms (idx + n)"

text \<open>\<^verbatim>\<open>pattern.regex.test(currentText)\<close> on the fresh expression (\<^verbatim>\<open>lastIndex\<close> 0). The
  source sets \<^verbatim>\<open>lastIndex\<close> back to 0 before the \<^verbatim>\<open>exec\<close> loop; \<^verbatim>\<open>split\<close>, whose result
  is not used, does not change it.\<close>

definition test :: "pattern \<Rightarrow> string \<Rightarrow> bool" where
  "test p text = (exec_from (regex p) text 0 \<noteq> None)"

text \<open>The loop over \<^verbatim>\<open>patterns\<close> stops at the first pattern whose \<^verbatim>\<open>test\<close> succeeds
  (\<^verbatim>\<open>break\<close>); when none does, the text itself is the only element.\<close>

definition parseInlineMarkdown :: "string \<Rightarrow> node list" where
  "parseInlineMarkdown text =
     (if text = [] then []
      else (case find (\<lambda>p. test p text) patterns of
              Some p \<Rightarrow> renderMatches p text (execAll p text 0) 0
            | None \<Rightarrow> [PlainText text]))"

section \<open>parseMarkdown\<close>

text \<open>
  \<^verbatim>\<open>line.match(/^[-*]\s+/)\<close> and \<^verbatim>\<open>line.replace(/^[-*]\s+/, "")\<close>;
  \<^verbatim>\<open>line.match(/^(\d+)\.\s+/)\<close>, giving group 1, and \<^verbatim>\<open>line.replace(/^\d+\.\s+/, "")\<close>.
  The \<^verbatim>\<open>replace\<close> calls are only made on a line that matches.
\<close>

definition bulletMatch :: "string \<Rightarrow> bool" where
  "bulletMatch line =
     (case line of
        c # d # _ \<Rightarrow> (c = CHR ''-'' \<or> c = CHR ''*'') \<and> isSpace d
      | _ \<Rightarrow> False)"

definition bulletContent :: "string \<Rightarrow> string" where
  "bulletContent line = dropWhile isSpace (drop 1 line)"

definition numberedMatch :: "string \<Rightarrow> string option" where
  "numberedMatch line =
     (let ds = takeWhile isDigit line in
      (case dropWhile isDigit line of
         c # d # _ \<Rightarrow> if ds \<noteq> [] \<and> c = CHR ''.'' \<and> isSpace d then Some ds else None
       | _ \<Rightarrow> None))"

definition numberedContent :: "string \<Rightarrow> string" where
  "numberedContent line = dropWhile isSpace (drop 1 (dropWhile isDigit line))"

text \<open>The callback of \<^verbatim>\<open>lines.forEach((line, lineIndex) => ...)\<close>.\<close>

definition lineElements :: "string \<Rightarrow> nat \<Rightarrow> node list" where
  "lineElements line lineIndex =
     (if 0 < lineIndex then [LineBreak] else [])
     @ (if bulletMatch line
        then [ListItem BulletGlyph (parseInlineMarkdown (bulletContent line))]
        else (case numberedMatch line of
                Some ds \<Rightarrow> [ListItem (Numeral ds) (parseInlineMarkdown (numberedContent line))]
              | None \<Rightarrow> parseInlineMarkdown line))"

fun forEachLine :: "string list \<Rightarrow> nat \<Rightarrow> node list" where
  "forEachLine [] lineIndex = []"
| "forEachLine (line # lines) lineIndex =
     lineElements line lineIndex @ forEachLine lines (Suc lineIndex)"

definition parseMarkdown :: "string \<Rightarrow> node list" where
  "parseMarkdown text =
     (if text = [] then [] else forEachLine (split_char (CHR 0x0A) text) 0)"

section \<open>parseInlineContent\<close>

text \<open>
  \<^verbatim>\<open>inlineMathRegex = /\$([^\$\n]+)\$/g\<close>. The parameter \<open>throws\<close> says for which
  formulas building the math element throws, so that both branches of each
  \<^verbatim>\<open>try\<close>/\<^verbatim>\<open>catch\<close> are in the model. The variable \<^verbatim>\<open>lastIndex\<close> of the loop and the
  \<^verbatim>\<open>lastIndex\<close> of the expression are equal at every iteration: both are the end of
  the last match.
\<close>

definition inlineMathRegex :: "nat \<Rightarrow> string \<Rightarrow> (nat \<times> string list) option" where
  "inlineMathRegex i s =
     (case delimited ''$'' (\<lambda>c. c \<noteq> CHR ''$'' \<and> c \<noteq> CHR 0x0A) ''$'' s of
        None \<Rightarrow> None
      | Some (c, n) \<Rightarrow> Some (n, [c]))"

lemma inlineMathRegex_bounds: "inlineMathRegex i s = Some (n, gs) \<Longrightarrow> 0 < n \<and> n \<le> length s"
  by (auto simp: inlineMathRegex_def split: option.splits dest: delimited_bounds)

function inlineMathLoop :: "(string \<Rightarrow> bool) \<Rightarrow> string \<Rightarrow> nat \<Rightarrow> node list" where
  "inlineMathLoop throws text lastIndex =
     (case exec_from inlineMathRegex text lastIndex of
        None \<Rightarrow>
          (if lastIndex < length text then parseMarkdown (drop lastIndex text) else [])
      | Some (idx, n, gs) \<Rightarrow>
          (if lastIndex < idx then parseMarkdown (slice text lastIndex idx) else [])
          @ (let formula = trim (group gs 0)
             in [if throws formula then ErrorCode (''$'' @ formula @ ''$'') else InlineMath formula])
          @ inlineMathLoop throws text (idx + n))"
  by pat_completeness auto
termination
proof (relation "measure (\<lambda>(throws, text, i). Suc (length text) - i)")
  fix throws :: "string \<Rightarrow> bool" and t :: string and i idx n :: nat and x2 y and gs :: "string list"
  assume "exec_from inlineMathRegex t i = Some x2" "(idx, y) = x2" "(n, gs) = y"
  then have e: "exec_from inlineMathRegex t i = Some (idx, n, gs)" by simp
  from exec_from_SomeD [OF e] inlineMathRegex_bounds [of idx "drop idx t" n gs]
  show "((throws, t, idx + n), throws, t, i) \<in> measure (\<lambda>(throws, text, i). Suc (length text) - i)"
    by auto
qed simp

declare inlineMathLoop.simps [simp del]

definition parseInlineContent :: "(string \<Rightarrow> bool) \<Rightarrow> string \<Rightarrow> node list" where
  "parseInlineContent throws text = inlineMathLoop throws text 0"

section \<open>Tables\<close>

text \<open>
  \<^verbatim>\<open>parseCells\<close> of \<^verbatim>\<open>renderMarkdownTable\<close>:
  \<^verbatim>\<open>line.split("|").filter((c) => c.trim()).map((c) => c.trim())\<close>.
\<close>

definition parseCells :: "string \<Rightarrow> string list" where
  "parseCells line = map trim (filter (\<lambda>c. trim c \<noteq> []) (split_char (CHR ''|'') line))"

text \<open>
  \<^verbatim>\<open>renderMarkdownTable\<close>: the lines of the trimmed text that are not blank; with fewer
  than two of them the text in a \<^verbatim>\<open><span>\<close>; otherwise the cells of \<^verbatim>\<open>lines[0]\<close> are the
  header, \<^verbatim>\<open>lines[1]\<close> is skipped and \<^verbatim>\<open>lines.slice(2)\<close> are the rows.
\<close>

definition renderMarkdownTable :: "string \<Rightarrow> node" where
  "renderMarkdownTable tableText =
     (case filter (\<lambda>l. trim l \<noteq> []) (split_char (CHR 0x0A) (trim tableText)) of
        header # _ # dataLines \<Rightarrow> Table (parseCells header) (map parseCells dataLines)
      | _ \<Rightarrow> RawSpan tableText)"

text \<open>
  \<^verbatim>\<open>/^\|?\s*[-:]+\s*\|/.test(l)\<close>: an optional pipe, white space, one or more of
  \<^verbatim>\<open>-\<close> and \<^verbatim>\<open>:\<close>, white space, a pipe. The four classes are disjoint, so each
  greedy run is the only one that can succeed.
\<close>

definition isDashColon :: "char \<Rightarrow> bool" where
  "isDashColon c = (c = CHR ''-'' \<or> c = CHR '':'')"

definition separatorTest :: "string \<Rightarrow> bool" where
  "separatorTest l =
     (let a = (if startsWith l ''|'' then drop 1 l else l);
          b = dropWhile isSpace a;
          c = takeWhile isDashColon b;
          d = dropWhile isSpace (dropWhile isDashColon b)
      in c \<noteq> [] \<and> startsWith d ''|'')"

definition isMarkdownTable :: "string \<Rightarrow> bool" where
  "isMarkdownTable text =
     (case split_char (CHR 0x0A) (trim text) of
        first # second # rest \<Rightarrow>
          CHR ''|'' \<in> set first \<and> list_ex separatorTest (first # second # rest)
      | _ \<Rightarrow> False)"

text \<open>
  \<^verbatim>\<open>tableRegex = /((?:^|\n)\|[^\n]+\|\n\|[-:| ]+\|\n(?:\|[^\n]+\|\n?)*)/g\<close>.

  \<open>pipeLine cls\<close> is \<^verbatim>\<open>\|C+\|\n\<close> for a class \<open>C\<close> that has the pipe and not the line
  feed (\<^verbatim>\<open>[^\n]\<close> for the header line, \<^verbatim>\<open>[-:| ]\<close> for the separator line): the
  longest run of \<open>C\<close> after the first pipe stops before a line feed or at the end, and
  the pipe before the line feed is the last character of that run, so the run has two
  characters or more, ends with a pipe and stands before a line feed. It returns the
  length consumed, line feed included.
\<close>

definition pipeLine :: "(char \<Rightarrow> bool) \<Rightarrow> string \<Rightarrow> nat option" where
  "pipeLine cls s =
     (case s of
        [] \<Rightarrow> None
      | c # r \<Rightarrow>
          (let run = takeWhile cls r
           in if c = CHR ''|'' \<and> 2 \<le> length run \<and> last run = CHR ''|''
                 \<and> startsWith (drop (length run) r) [CHR 0x0A]
              then Some (length run + 2)
              else None))"

definition notNewline :: "char \<Rightarrow> bool" where
  "notNewline c = (c \<noteq> CHR 0x0A)"

definition sepClass :: "char \<Rightarrow> bool" where
  "sepClass c = (c = CHR ''-'' \<or> c = CHR '':'' \<or> c = CHR ''|'' \<or> c = CHR '' '')"

text \<open>
  One round of \<^verbatim>\<open>(?:\|[^\n]+\|\n?)*\<close>: a pipe, one character or more up to the last
  pipe of the line that leaves one (the greedy \<^verbatim>\<open>[^\n]+\<close> gives back characters until
  a pipe follows), then a line feed if there is one. \<open>rowsLen\<close> repeats the round
  while it matches; nothing follows the star, so its first result is the match.
\<close>

definition uptoLastPipe :: "string \<Rightarrow> string" where
  "uptoLastPipe l = rev (dropWhile (\<lambda>c. c \<noteq> CHR ''|'') (rev l))"

definition rowLen :: "string \<Rightarrow> nat option" where
  "rowLen s =
     (case s of
        c # x # r \<Rightarrow>
          (let m = uptoLastPipe (takeWhile notNewline r);
               n = 2 + length m
           in if c = CHR ''|'' \<and> notNewline x \<and> m \<noteq> []
              then Some (if startsWith (drop n s) [CHR 0x0A] then Suc n else n)
              else None)
      | _ \<Rightarrow> None)"

lemma length_uptoLastPipe: "length (uptoLastPipe l) \<le> length l"
  by (simp add: uptoLastPipe_def length_dropWhile_le [of _ "rev l", simplified])

lemma rowLen_bounds:
  assumes "rowLen s = Some n"
  shows "0 < n \<and> n \<le> length s"
proof -
  from assms obtain c x r where s: "s = c # x # r"
    by (auto simp: rowLen_def split: list.splits)
  let ?m = "uptoLastPipe (takeWhile notNewline r)"
  have "length ?m \<le> length r"
    using length_uptoLastPipe [of "takeWhile notNewline r"] length_takeWhile_le [of notNewline r]
    by linarith
  then show ?thesis using assms s
    by (auto simp: rowLen_def Let_def split: if_splits dest!: startsWith_drop_less)
qed

function rowsLen :: "string \<Rightarrow> nat" where
  "rowsLen s =
     (case rowLen s of
        None \<Rightarrow> 0
      | Some n \<Rightarrow> n + rowsLen (drop n s))"
  by pat_completeness auto
termination
proof (relation "measure length")
  fix s :: string and n :: nat
  assume "rowLen s = Some n"
  from rowLen_bounds [OF this] show "(drop n s, s) \<in> measure length" by auto
qed simp

declare rowsLen.simps [simp del]

text \<open>
  The expression tried at position \<open>i\<close>, \<open>s\<close> being the text from \<open>i\<close> on: first
  \<^verbatim>\<open>^\<close>, which holds at position 0 only, then a line feed; after either, the header
  line, the separator line and the rows. It returns the length of \<^verbatim>\<open>tableMatch[0]\<close>,
  which is also \<^verbatim>\<open>tableMatch[1]\<close>.
\<close>

definition tableBody :: "string \<Rightarrow> nat option" where
  "tableBody s =
     (case pipeLine notNewline s of
        None \<Rightarrow> None
      | Some h \<Rightarrow>
          (case pipeLine sepClass (drop h s) of
             None \<Rightarrow> None
           | Some p \<Rightarrow> Some (h + p + rowsLen (drop (h + p) s))))"

definition tableRegex :: "nat \<Rightarrow> string \<Rightarrow> nat option" where
  "tableRegex i s =
     (case (if i = 0 then tableBody s else None) of
        Some n \<Rightarrow> Some n
      | None \<Rightarrow>
          (case s of
             [] \<Rightarrow> None
           | c # r \<Rightarrow> if c = CHR 0x0A then map_option Suc (tableBody r) else None))"

lemma pipeLine_bounds:
  assumes "pipeLine cls s = Some n"
  shows "0 < n \<and> n \<le> length s"
proof -
  from assms obtain c r where s: "s = c # r"
    by (auto simp: pipeLine_def split: list.splits)
  show ?thesis using assms s
    by (auto simp: pipeLine_def Let_def split: if_splits dest!: startsWith_drop_less)
qed

lemma rowsLen_le: "rowsLen s \<le> length s"
proof (induction s rule: rowsLen.induct)
  case (1 s)
  show ?case
  proof (cases "rowLen s")
    case None
    then show ?thesis by (simp add: rowsLen.simps [of s])
  next
    case (Some n)
    have "rowsLen s = n + rowsLen (drop n s)"
      using Some by (simp add: rowsLen.simps [of s])
    with "1.IH" [OF Some] rowLen_bounds [OF Some] show ?thesis
      by auto
  
  qed
qed

lemma tableBody_bounds:
  assumes "tableBody s = Some n"
  shows "0 < n \<and> n \<le> length s"
proof -
  from assms obtain h p where h: "pipeLine notNewline s = Some h"
    and p: "pipeLine sepClass (drop h s) = Some p" and n: "n = h + p + rowsLen (drop (h + p) s)"
    by (auto simp: tableBody_def split: option.splits)
  from pipeLine_bounds [OF h] pipeLine_bounds [OF p] rowsLen_le [of "drop (h + p) s"] n
  show ?thesis by auto
qed

lemma tableRegex_bounds:
  assumes "tableRegex i s = Some n"
  shows "0 < n \<and> n \<le> length s"
proof (cases "(if i = 0 then tableBody s else None)")
  case (Some k)
  with assms have "tableBody s = Some n"
    by (auto simp: tableRegex_def split: if_splits)
  then show ?thesis by (rule tableBody_bounds)
next
  case None
  with assms obtain r k where "s = CHR 0x0A # r" "tableBody r = Some k" "n = Suc k"
    by (auto simp: tableRegex_def split: list.splits if_splits)
  with tableBody_bounds [of r k] show ?thesis by auto
qed

section \<open>parseContent\<close>

text \<open>
  The \<^verbatim>\<open>while ((tableMatch = tableRegex.exec(part)) !== null)\<close> loop of one part and the
  text after the last table. \<^verbatim>\<open>lastIdx\<close> and the \<^verbatim>\<open>lastIndex\<close> of the expression are both
  the end of the last match.
\<close>

function tableLoop :: "(string \<Rightarrow> bool) \<Rightarrow> string \<Rightarrow> nat \<Rightarrow> node list" where
  "tableLoop throws part lastIdx =
     (case exec_from tableRegex part lastIdx of
        None \<Rightarrow>
          (if lastIdx < length part then parseInlineContent throws (drop lastIdx part) else [])
      | Some (idx, n) \<Rightarrow>
          (if lastIdx < idx then parseInlineContent throws (slice part lastIdx idx) else [])
          @ (let m = slice part idx (idx + n)
             in if isMarkdownTable m then [renderMarkdownTable m]
                else parseInlineContent throws m)
          @ tableLoop throws part (idx + n))"
  by pat_completeness auto
termination
proof (relation "measure (\<lambda>(throws, part, i). Suc (length part) - i)")
  fix throws :: "string \<Rightarrow> bool" and part :: string and i idx n :: nat and x2
  assume "exec_from tableRegex part i = Some x2" "(idx, n) = x2"
  then have e: "exec_from tableRegex part i = Some (idx, n)" by simp
  from exec_from_SomeD [OF e] tableRegex_bounds [of idx "drop idx part" n]
  show "((throws, part, idx + n), throws, part, i) \<in> measure (\<lambda>(throws, part, i). Suc (length part) - i)"
    by auto
qed simp

declare tableLoop.simps [simp del]

text \<open>
  \<^verbatim>\<open>/(\$\$[\s\S]*?\$\$)/g\<close> tried at the start of \<open>s\<close>: two dollars, then the shortest
  run of any characters after which two dollars stand. \<open>findClose\<close> is the length of
  that run.
\<close>

fun findClose :: "string \<Rightarrow> nat option" where
  "findClose [] = None"
| "findClose (c # cs) =
     (if startsWith (c # cs) ''$$'' then Some 0 else map_option Suc (findClose cs))"

definition blockRegex :: "string \<Rightarrow> nat option" where
  "blockRegex s =
     (if startsWith s ''$$'' then map_option (\<lambda>k. k + 4) (findClose (drop 2 s)) else None)"

lemma findClose_bounds: "findClose s = Some k \<Longrightarrow> k + 2 \<le> length s"
proof (induction s arbitrary: k)
  case Nil
  then show ?case by simp
next
  case (Cons c cs)
  show ?case
  proof (cases "startsWith (c # cs) ''$$''")
    case True
    then have "2 \<le> length (c # cs)" by (cases cs) (auto simp: startsWith_def)
    with True Cons.prems show ?thesis by simp
  next
    case False
    with Cons.prems obtain j where "findClose cs = Some j" "k = Suc j" by auto
    with Cons.IH [of j] show ?thesis by simp
  qed
qed

lemma blockRegex_bounds: "blockRegex s = Some n \<Longrightarrow> 4 \<le> n \<and> n \<le> length s"
  by (auto simp: blockRegex_def split: if_splits dest!: findClose_bounds)

text \<open>
  \<^verbatim>\<open>text.split(/(\$\$[\s\S]*?\$\$)/g)\<close>, as \<^verbatim>\<open>RegExp.prototype[Symbol.split]\<close> runs it:
  \<open>p\<close> is the end of the last match and \<open>q\<close> the position tried. A match at \<open>q\<close>
  adds the text from \<open>p\<close> to \<open>q\<close> and then the captured group, which is the whole
  match; at the end the text from \<open>p\<close> on is added. (A match is never empty, so the
  case of a match that ends at \<open>p\<close> does not occur.)
\<close>

function splitLoop :: "string \<Rightarrow> nat \<Rightarrow> nat \<Rightarrow> string list" where
  "splitLoop text p q =
     (if q < length text then
        (case blockRegex (drop q text) of
           None \<Rightarrow> splitLoop text p (Suc q)
         | Some n \<Rightarrow> slice text p q # slice text q (q + n) # splitLoop text (q + n) (q + n))
      else [slice text p (length text)])"
  by pat_completeness auto
termination
proof (relation "measure (\<lambda>(text, p, q). length text - q)")
  fix t :: string and p q n :: nat
  assume "q < length t" "blockRegex (drop q t) = Some n"
  with blockRegex_bounds [of "drop q t" n]
  show "((t, q + n, q + n), t, p, q) \<in> measure (\<lambda>(text, p, q). length text - q)"
    by auto
qed auto

declare splitLoop.simps [simp del]

definition splitBlockMath :: "string \<Rightarrow> string list" where
  "splitBlockMath text = splitLoop text 0 0"

text \<open>
  The body of \<^verbatim>\<open>for (const part of blockParts)\<close>. \<^verbatim>\<open>part.slice(2, -2)\<close> ends at
  \<open>length part - 2\<close>, or at 0 for a shorter part.
\<close>

definition partElements :: "(string \<Rightarrow> bool) \<Rightarrow> string \<Rightarrow> node list" where
  "partElements throws part =
     (if startsWith part ''$$'' \<and> endsWith part ''$$'' then
        (let formula = trim (slice part 2 (length part - 2))
         in [if throws formula then ErrorCode part else BlockMath formula])
      else tableLoop throws part 0)"

definition parseContent :: "(string \<Rightarrow> bool) \<Rightarrow> string \<Rightarrow> node list" where
  "parseContent throws text = concat (map (partElements throws) (splitBlockMath text))"

section \<open>Properties of the inline emphasis resolver\<close>

text \<open>The pattern whose \<^verbatim>\<open>render\<close> builds a node; none for the other nodes.\<close>

fun classOf :: "node \<Rightarrow> pattern option" where
  "classOf (Bold c) = Some PBold"
| "classOf (Italic c) = Some PItalic"
| "classOf (InlineCode c) = Some PCode"
| "classOf (Link c u) = Some PLink"
| "classOf n = None"

text \<open>The content of an emphasis node has none of the characters that its pattern's
  character class excludes.\<close>

fun delimiterFree :: "node \<Rightarrow> bool" where
  "delimiterFree (Bold c) = (CHR ''*'' \<notin> set c)"
| "delimiterFree (Italic c) = (CHR ''*'' \<notin> set c)"
| "delimiterFree (InlineCode c) = (CHR 0x60 \<notin> set c)"
| "delimiterFree (Link c u) = (CHR '']'' \<notin> set c \<and> CHR '')'' \<notin> set u)"
| "delimiterFree n = True"

text \<open>The text of a node as it stood in the input: plain text as it is, an emphasis
  node between the delimiters of its pattern, a line break as a line feed.\<close>

fun sourceText :: "node \<Rightarrow> string" where
  "sourceText (PlainText s) = s"
| "sourceText (Bold c) = ''**'' @ c @ ''**''"
| "sourceText (Italic c) = ''*'' @ c @ ''*''"
| "sourceText (InlineCode c) = [CHR 0x60] @ c @ [CHR 0x60]"
| "sourceText (Link c u) = ''['' @ c @ '']('' @ u @ '')''"
| "sourceText LineBreak = [CHR 0x0A]"
| "sourceText n = []"

text \<open>A node of a line resolved by the pattern \<open>p\<close>: built by \<open>p\<close>, or plain text
  in which \<open>p\<close> matches nowhere.\<close>

definition resolvedBy :: "pattern \<Rightarrow> node \<Rightarrow> bool" where
  "resolvedBy p n = (case n of PlainText x \<Rightarrow> \<not> test p x | _ \<Rightarrow> classOf n = Some p)"

text \<open>The three parts of the patterns with one group, for the proofs.\<close>

fun opener :: "pattern \<Rightarrow> string" where
  "opener PBold = ''**''"
| "opener PItalic = ''*''"
| "opener PCode = [CHR 0x60]"
| "opener PLink = ''[''"

fun closer :: "pattern \<Rightarrow> string" where
  "closer PBold = ''**''"
| "closer PItalic = ''*''"
| "closer PCode = [CHR 0x60]"
| "closer PLink = '']''"

fun inClass :: "pattern \<Rightarrow> char \<Rightarrow> bool" where
  "inClass PBold = (\<lambda>c. c \<noteq> CHR ''*'')"
| "inClass PItalic = (\<lambda>c. c \<noteq> CHR ''*'')"
| "inClass PCode = (\<lambda>c. c \<noteq> CHR 0x60)"
| "inClass PLink = (\<lambda>c. c \<noteq> CHR '']'')"

lemma regex_pos: "regex p i s = regex p j s"
  by (cases p) simp_all

lemma regex_simple:
  "p \<noteq> PLink \<Longrightarrow> regex p i s =
     (case delimited (opener p) (inClass p) (closer p) s of None \<Rightarrow> None | Some (c, n) \<Rightarrow> Some (n, [c]))"
  by (cases p) simp_all

lemma regex_simpleD:
  assumes "regex p i s = Some (n, gs)" "p \<noteq> PLink"
  shows "\<exists>c. delimited (opener p) (inClass p) (closer p) s = Some (c, n) \<and> gs = [c]"
proof (cases "delimited (opener p) (inClass p) (closer p) s")
  case None
  with assms show ?thesis by (simp add: regex_simple)
next
  case (Some a)
  obtain c k where "a = (c, k)" by (cases a)
  with Some assms show ?thesis by (simp add: regex_simple)
qed

lemma regex_linkD:
  assumes "regex PLink i s = Some (n, gs)"
  shows "\<exists>c k w m. delimited ''['' (\<lambda>c. c \<noteq> CHR '']'') '']('' s = Some (c, k)
    \<and> delimited [] (\<lambda>c. c \<noteq> CHR '')'') '')'' (drop k s) = Some (w, m)
    \<and> gs = [c, w] \<and> n = k + m"
proof (cases "delimited ''['' (\<lambda>c. c \<noteq> CHR '']'') '']('' s")
  case None
  with assms show ?thesis by simp
next
  case (Some a)
  obtain c k where a: "a = (c, k)" by (cases a)
  show ?thesis
  proof (cases "delimited [] (\<lambda>c. c \<noteq> CHR '')'') '')'' (drop k s)")
    case None
    with Some a assms show ?thesis by simp
  next
    case (Some b)
    obtain w m where "b = (w, m)" by (cases b)
    with Some \<open>delimited ''['' (\<lambda>c. c \<noteq> CHR '']'') '']('' s = Some a\<close> a assms
    show ?thesis by simp
  qed
qed

lemma closer_outside: "closer p \<noteq> [] \<and> \<not> inClass p (hd (closer p))"
  by (cases p) simp_all

lemma delimited_mono:
  assumes "delimited opn ok cls u = Some (c, n)" "cls \<noteq> []" "\<not> ok (hd cls)"
  shows "delimited opn ok cls (u @ v) = Some (c, n)"
proof -
  from delimited_SomeD [OF assms(1)] obtain rest where
    u: "u = opn @ c @ cls @ rest" and c: "c \<noteq> []" "\<forall>x\<in>set c. ok x"
    and n: "n = length opn + length c + length cls" by blast
  from delimited_SomeI [OF c assms(2,3), of opn "rest @ v"] u n show ?thesis by simp
qed

lemma regex_mono:
  assumes "regex p i u = Some (n, gs)"
  shows "regex p j (u @ v) = Some (n, gs)"
proof (cases "p = PLink")
  case True
  with assms have "regex PLink i u = Some (n, gs)" by simp
  from regex_linkD [OF this] obtain c k w m where
    d1: "delimited ''['' (\<lambda>c. c \<noteq> CHR '']'') '']('' u = Some (c, k)"
    and d2: "delimited [] (\<lambda>c. c \<noteq> CHR '')'') '')'' (drop k u) = Some (w, m)"
    and r: "gs = [c, w]" "n = k + m"
    by blast
  from delimited_bounds [OF d1] have dr: "drop k (u @ v) = drop k u @ v" by simp
  have e1: "delimited ''['' (\<lambda>c. c \<noteq> CHR '']'') '']('' (u @ v) = Some (c, k)"
    by (rule delimited_mono [OF d1]) simp_all
  have e2: "delimited [] (\<lambda>c. c \<noteq> CHR '')'') '')'' (drop k u @ v) = Some (w, m)"
    by (rule delimited_mono [OF d2]) simp_all
  from e1 e2 dr r True show ?thesis by simp
next
  case False
  from regex_simpleD [OF assms False] obtain c where
    d: "delimited (opener p) (inClass p) (closer p) u = Some (c, n)" and r: "gs = [c]" by blast
  from closer_outside [of p] have "delimited (opener p) (inClass p) (closer p) (u @ v) = Some (c, n)"
    by (intro delimited_mono [OF d]) simp_all
  with r False show ?thesis by (simp add: regex_simple)
qed

lemma regex_render_class: "classOf (render p gs) = Some p"
  by (cases p) simp_all

lemma render_simple:
  "p \<noteq> PLink \<Longrightarrow> sourceText (render p [c]) = opener p @ c @ closer p"
  "p \<noteq> PLink \<Longrightarrow> delimiterFree (render p [c]) = (\<forall>x\<in>set c. inClass p x)"
  by (cases p; auto simp: group_def)+

lemma regex_render_free:
  assumes "regex p i s = Some (n, gs)"
  shows "delimiterFree (render p gs)"
proof (cases "p = PLink")
  case True
  with assms have "regex PLink i s = Some (n, gs)" by simp
  from regex_linkD [OF this] obtain c k w m where
    d1: "delimited ''['' (\<lambda>c. c \<noteq> CHR '']'') '']('' s = Some (c, k)"
    and d2: "delimited [] (\<lambda>c. c \<noteq> CHR '')'') '')'' (drop k s) = Some (w, m)"
    and r: "gs = [c, w]"
    by blast
  from delimited_SomeD(3) [OF d1] have "CHR '']'' \<notin> set c" by blast
  moreover from delimited_SomeD(3) [OF d2] have "CHR '')'' \<notin> set w" by blast
  ultimately show ?thesis using r True by (simp add: group_def)
next
  case False
  from regex_simpleD [OF assms False] obtain c where
    d: "delimited (opener p) (inClass p) (closer p) s = Some (c, n)" and r: "gs = [c]" by blast
  from delimited_SomeD(3) [OF d] r False show ?thesis by (simp add: render_simple)
qed

lemma drop_length_append: "drop (length xs) (xs @ ys) = ys"
  by simp

lemma take_length_append: "take (length xs) (xs @ ys) = xs"
  by simp

lemma regex_render_source:
  assumes "regex p i s = Some (n, gs)"
  shows "sourceText (render p gs) = take n s"
proof (cases "p = PLink")
  case True
  with assms have "regex PLink i s = Some (n, gs)" by simp
  from regex_linkD [OF this] obtain c k w m where
    d1: "delimited ''['' (\<lambda>c. c \<noteq> CHR '']'') '']('' s = Some (c, k)"
    and d2: "delimited [] (\<lambda>c. c \<noteq> CHR '')'') '')'' (drop k s) = Some (w, m)"
    and r: "gs = [c, w]" "n = k + m"
    by blast
  from delimited_SomeD(1) [OF d1] obtain r1 where s: "s = (''['' @ c @ '']('') @ r1" by auto
  from delimited_SomeD(4) [OF d1] have k: "k = length (''['' @ c @ '']('')" by simp
  from delimited_SomeD(1) [OF d2] obtain r2 where s2: "drop k s = (w @ '')'') @ r2" by auto
  from delimited_SomeD(4) [OF d2] have m: "m = length (w @ '')'')" by simp
  have "drop k s = r1" unfolding k by (subst s) (rule drop_length_append)
  with s2 have r1: "r1 = (w @ '')'') @ r2" by simp
  have "s = ((''['' @ c @ '']('') @ (w @ '')'')) @ r2" by (subst s, subst r1) simp
  moreover have "n = length ((''['' @ c @ '']('') @ (w @ '')''))"
    unfolding \<open>n = k + m\<close> k m by simp
  ultimately have "take n s = (''['' @ c @ '']('') @ (w @ '')'')"
    by (metis take_length_append)
  with r True show ?thesis by (simp add: group_def)
next
  case False
  from regex_simpleD [OF assms False] obtain c where
    d: "delimited (opener p) (inClass p) (closer p) s = Some (c, n)" and r: "gs = [c]" by blast
  from delimited_SomeD(1) [OF d] obtain rest where s: "s = (opener p @ c @ closer p) @ rest" by auto
  from delimited_SomeD(4) [OF d] have n: "n = length (opener p @ c @ closer p)" by simp
  have "take n s = opener p @ c @ closer p" unfolding n by (subst s) (rule take_length_append)
  with r False show ?thesis by (simp add: render_simple)
qed

lemma regex_Nil: "regex p i [] = None"
proof (cases "regex p i []")
  case (Some a)
  obtain n gs where "a = (n, gs)" by (cases a)
  with Some regex_bounds [of p i "[]" n gs] show ?thesis by auto
qed simp

lemma no_match_suffix:
  assumes "exec_from (regex p) t i = None"
  shows "\<not> test p (drop i t)"
proof -
  have "regex p j (drop j (drop i t)) = None" if "j \<le> length (drop i t)" for j
  proof (cases "i + j \<le> length t")
    case True
    with assms have "regex p (i + j) (drop (i + j) t) = None"
      by (simp add: exec_from_None)
    then show ?thesis by (simp add: regex_pos [of p j _ "i + j"] add.commute)
  next
    case False
    then show ?thesis by (simp add: regex_Nil)
  qed
  then show ?thesis by (simp add: test_def exec_from_None)
qed

lemma drop_take_drop:
  assumes "j \<le> k" "k \<le> length u"
  shows "drop j u = drop j (take k u) @ drop k u"
  using drop_append [of j "take k u" "drop k u"] assms by simp

lemma no_match_between:
  assumes "exec_from (regex p) t i = Some (idx, r)"
  shows "\<not> test p (slice t i idx)"
proof -
  from exec_from_SomeD [OF assms] have le: "i \<le> idx" "idx \<le> length t"
    and none: "\<And>j. i \<le> j \<Longrightarrow> j < idx \<Longrightarrow> regex p j (drop j t) = None" by auto
  let ?x = "slice t i idx"
  have len: "length ?x = idx - i" using le by (simp add: slice_def)
  have "regex p j (drop j ?x) = None" if "j \<le> length ?x" for j
  proof (cases "j = idx - i")
    case True
    with len show ?thesis by (simp add: regex_Nil)
  next
    case False
    with that len have j: "j < idx - i" by simp
    have split: "drop (i + j) t = drop j ?x @ drop idx t"
      using drop_take_drop [of j "idx - i" "drop i t"] j le
      by (simp add: slice_def add.commute)
    show ?thesis
    proof (cases "regex p j (drop j ?x)")
      case (Some a)
      obtain n gs where "a = (n, gs)" by (cases a)
      with Some have "regex p (i + j) (drop j ?x @ drop idx t) = Some (n, gs)"
        by (simp add: regex_mono)
      moreover from j have "i + j < idx" by arith
      ultimately show ?thesis using split none [of "i + j"] by simp
    qed simp
  qed
  then show ?thesis by (simp add: test_def exec_from_None)
qed

lemma render_not_plain: "render p gs \<noteq> PlainText x"
  by (cases p) simp_all

lemma resolvedBy_render: "resolvedBy p (render p gs)"
  by (cases p) (simp_all add: resolvedBy_def)

lemma slice_take_drop:
  assumes "i \<le> idx" "idx + n \<le> length t"
  shows "slice t i idx @ take n (drop idx t) @ drop (idx + n) t = drop i t"
proof -
  have "take n (drop idx t) @ drop (idx + n) t = drop idx t"
    by (metis append_take_drop_id drop_drop add.commute)
  moreover have "slice t i idx @ drop idx t = drop i t"
    using assms(1) unfolding slice_def
    by (metis append_take_drop_id drop_drop le_add_diff_inverse2)
  ultimately show ?thesis by simp
qed

lemma execAll_None: "exec_from (regex p) t i = None \<Longrightarrow> execAll p t i = []"
  by (simp add: execAll.simps [of p t i])

lemma execAll_Some:
  "exec_from (regex p) t i = Some (idx, n, gs) \<Longrightarrow> execAll p t i = (idx, n, gs) # execAll p t (idx + n)"
  by (simp add: execAll.simps [of p t i])

lemma exec_regex_bounds:
  assumes "exec_from (regex p) t i = Some (idx, n, gs)"
  shows "i \<le> idx" "idx + n \<le> length t" "regex p idx (drop idx t) = Some (n, gs)"
proof -
  from exec_from_SomeD [OF assms] have a: "i \<le> idx" and r: "regex p idx (drop idx t) = Some (n, gs)"
    and b: "idx \<le> length t" by auto
  show "i \<le> idx" by fact
  show "regex p idx (drop idx t) = Some (n, gs)" by fact
  from regex_bounds [OF r] b show "idx + n \<le> length t" by auto
qed

lemma resolved_all: "list_all (resolvedBy p) (renderMatches p t (execAll p t i) i)"
proof (induction p t i rule: execAll.induct)
  case (1 p t i)
  show ?case
  proof (cases "exec_from (regex p) t i")
    case None
    with no_match_suffix [OF None] show ?thesis
      by (simp add: execAll_None resolvedBy_def)
  next
    case (Some a)
    obtain idx n gs where a: "a = (idx, n, gs)" by (cases a)
    with Some have e: "exec_from (regex p) t i = Some (idx, n, gs)" by simp
    from "1.IH" [OF Some a [symmetric] refl] no_match_between [OF e] show ?thesis
      by (simp add: execAll_Some [OF e] resolvedBy_render) (simp add: resolvedBy_def)
  qed
qed

lemma delimiterFree_all: "list_all delimiterFree (renderMatches p t (execAll p t i) i)"
proof (induction p t i rule: execAll.induct)
  case (1 p t i)
  show ?case
  proof (cases "exec_from (regex p) t i")
    case None
    then show ?thesis by (simp add: execAll_None)
  next
    case (Some a)
    obtain idx n gs where a: "a = (idx, n, gs)" by (cases a)
    with Some have e: "exec_from (regex p) t i = Some (idx, n, gs)" by simp
    from "1.IH" [OF Some a [symmetric] refl] regex_render_free [OF exec_regex_bounds(3) [OF e]]
    show ?thesis by (simp add: execAll_Some [OF e])
  qed
qed

lemma source_all: "concat (map sourceText (renderMatches p t (execAll p t i) i)) = drop i t"
proof (induction p t i rule: execAll.induct)
  case (1 p t i)
  show ?case
  proof (cases "exec_from (regex p) t i")
    case None
    then show ?thesis by (simp add: execAll_None)
  next
    case (Some a)
    obtain idx n gs where a: "a = (idx, n, gs)" by (cases a)
    with Some have e: "exec_from (regex p) t i = Some (idx, n, gs)" by simp
    note b = exec_regex_bounds [OF e]
    have sl: "slice t i idx = []" if "\<not> i < idx" using that b(1) by (simp add: slice_def)
    from "1.IH" [OF Some a [symmetric] refl] regex_render_source [OF b(3)]
      slice_take_drop [OF b(1,2)] sl
    show ?thesis by (auto simp: execAll_Some [OF e])
  qed
qed

lemma test_Nil: "\<not> test p []"
  by (simp add: test_def exec_from.simps [of _ "[]" 0] exec_from.simps [of _ "[]" "Suc 0"] regex_Nil)

lemma parseInlineMarkdown_Some:
  "find (\<lambda>p. test p line) patterns = Some p \<Longrightarrow>
     parseInlineMarkdown line = renderMatches p line (execAll p line 0) 0"
  by (cases "line = []") (auto simp: parseInlineMarkdown_def patterns_def test_Nil)

lemma parseInlineMarkdown_None:
  "find (\<lambda>p. test p line) patterns = None \<Longrightarrow>
     parseInlineMarkdown line = (if line = [] then [] else [PlainText line])"
  by (simp add: parseInlineMarkdown_def)

lemma parseInlineMarkdown_source: "concat (map sourceText (parseInlineMarkdown line)) = line"
proof (cases "find (\<lambda>p. test p line) patterns")
  case None
  then show ?thesis by (simp add: parseInlineMarkdown_None)
next
  case (Some p)
  then show ?thesis by (simp add: parseInlineMarkdown_Some source_all)
qed

lemma parseInlineMarkdown_free: "list_all delimiterFree (parseInlineMarkdown line)"
proof (cases "find (\<lambda>p. test p line) patterns")
  case None
  then show ?thesis by (simp add: parseInlineMarkdown_None)
next
  case (Some p)
  then show ?thesis by (simp add: parseInlineMarkdown_Some delimiterFree_all)
qed

section \<open>Properties of the line formatter\<close>

lemma split_char_not_Nil: "split_char d s \<noteq> []"
  by (induction s) (auto split: list.splits)

lemma split_char_absent: "d \<notin> set s \<Longrightarrow> split_char d s = [s]"
  by (induction s) auto


lemma split_char_no_sep: "l \<in> set (split_char d s) \<Longrightarrow> d \<notin> set l"
proof (induction s arbitrary: l)
  case Nil
  then show ?case by simp
next
  case (Cons c cs)
  obtain x xs where sp: "split_char d cs = x # xs"
    using split_char_not_Nil [of d cs] by (cases "split_char d cs") auto
  with Cons.IH have "d \<notin> set x" "\<And>y. y \<in> set xs \<Longrightarrow> d \<notin> set y" by auto
  with Cons.prems sp show ?case by (auto split: if_splits)
qed

lemma lineElements_Suc: "lineElements line (Suc k) = LineBreak # lineElements line 0"
  by (simp add: lineElements_def)

lemma forEachLine_Suc:
  "forEachLine ls (Suc k) = concat (map (\<lambda>x. LineBreak # lineElements x 0) ls)"
  by (induction ls arbitrary: k) (simp_all add: lineElements_Suc)

lemma forEachLine_0:
  "forEachLine (l # ls) 0 = lineElements l 0 @ concat (map (\<lambda>x. LineBreak # lineElements x 0) ls)"
  by (simp add: forEachLine_Suc)

lemma resolved_no_break: "list_all (resolvedBy p) ns \<Longrightarrow> LineBreak \<notin> set ns"
  by (induction ns) (auto simp: resolvedBy_def)

lemma parseInlineMarkdown_no_break: "LineBreak \<notin> set (parseInlineMarkdown line)"
proof (cases "find (\<lambda>p. test p line) patterns")
  case None
  then show ?thesis by (simp add: parseInlineMarkdown_None)
next
  case (Some p)
  then show ?thesis by (simp add: parseInlineMarkdown_Some resolved_no_break [OF resolved_all])
qed

lemma lineElements_no_break: "LineBreak \<notin> set (lineElements line 0)"
  by (auto simp: lineElements_def parseInlineMarkdown_no_break split: option.splits)

lemma count_breaks:
  "count_list (concat (map (\<lambda>x. LineBreak # lineElements x 0) ls)) LineBreak = length ls"
  by (induction ls) (simp_all add: lineElements_no_break)

lemma count_list_append: "count_list (xs @ ys) a = count_list xs a + count_list ys a"
  by (induction xs) auto

lemma one_break_between_lines:
  assumes "t \<noteq> []"
  shows "\<exists>l ls. split_char (CHR 0x0A) t = l # ls
      \<and> parseMarkdown t = lineElements l 0 @ concat (map (\<lambda>x. LineBreak # lineElements x 0) ls)
      \<and> LineBreak \<notin> set (lineElements l 0) \<and> list_all (\<lambda>x. LineBreak \<notin> set (lineElements x 0)) ls
      \<and> count_list (parseMarkdown t) LineBreak = length ls"
proof -
  obtain l ls where sp: "split_char (CHR 0x0A) t = l # ls"
    using split_char_not_Nil [of "CHR 0x0A" t] by (cases "split_char (CHR 0x0A) t") auto
  with assms have pm: "parseMarkdown t = lineElements l 0 @ concat (map (\<lambda>x. LineBreak # lineElements x 0) ls)"
    by (simp add: parseMarkdown_def forEachLine_Suc)
  have "count_list (parseMarkdown t) LineBreak = length ls"
    unfolding pm by (simp add: count_list_append count_breaks lineElements_no_break)
  moreover have "list_all (\<lambda>x. LineBreak \<notin> set (lineElements x 0)) ls"
    by (simp add: list_all_iff lineElements_no_break)
  ultimately show ?thesis using sp pm lineElements_no_break by blast
qed

lemma parseMarkdown_line:
  "t \<noteq> [] \<Longrightarrow> CHR 0x0A \<notin> set t \<Longrightarrow> parseMarkdown t = lineElements t 0"
  by (simp add: parseMarkdown_def split_char_absent)

lemma isDigit_not_special:
  "isDigit c \<Longrightarrow> c \<noteq> CHR ''.'' \<and> c \<noteq> CHR ''-'' \<and> c \<noteq> CHR ''*'' \<and> c \<noteq> CHR 0x0A"
  by (auto simp: isDigit_def)

lemma bullet_line:
  assumes "b = CHR ''-'' \<or> b = CHR ''*''" "isSpace w" "CHR 0x0A \<notin> set (w # rest)"
  shows "parseMarkdown (b # w # rest) = [ListItem BulletGlyph (parseInlineMarkdown (dropWhile isSpace (w # rest)))]"
proof -
  from assms have "CHR 0x0A \<notin> set (b # w # rest)" by auto
  then have "parseMarkdown (b # w # rest) = lineElements (b # w # rest) 0"
    by (intro parseMarkdown_line) simp_all
  also from assms have "bulletMatch (b # w # rest)" by (simp add: bulletMatch_def)
  then have "lineElements (b # w # rest) 0 =
      [ListItem BulletGlyph (parseInlineMarkdown (dropWhile isSpace (w # rest)))]"
    by (simp add: lineElements_def bulletContent_def)
  finally show ?thesis .
qed

lemma numbered_line:
  assumes "ds \<noteq> []" "\<forall>c\<in>set ds. isDigit c" "isSpace w" "CHR 0x0A \<notin> set (w # rest)"
  shows "parseMarkdown (ds @ CHR ''.'' # w # rest) =
     [ListItem (Numeral ds) (parseInlineMarkdown (dropWhile isSpace (w # rest)))]"
proof -
  let ?l = "ds @ CHR ''.'' # w # rest"
  have nd: "\<not> isDigit (CHR ''.'')" by (simp add: isDigit_def)
  from assms(2) have nl: "CHR 0x0A \<notin> set ds" using isDigit_not_special by blast
  with assms have "parseMarkdown ?l = lineElements ?l 0"
    by (intro parseMarkdown_line) auto
  moreover from assms(1,2) obtain d ds' where ds: "ds = d # ds'" "isDigit d"
    by (cases ds) auto
  then have "\<not> bulletMatch ?l"
    using isDigit_not_special [of d] by (auto simp: bulletMatch_def split: list.splits)
  moreover have tw: "takeWhile isDigit ?l = ds" and dw: "dropWhile isDigit ?l = CHR ''.'' # w # rest"
    using assms(2) nd by (simp_all add: takeWhile_append dropWhile_append)
  then have "numberedMatch ?l = Some ds"
    using assms(1,3) by (simp add: numberedMatch_def)
  ultimately show ?thesis
    by (simp add: lineElements_def numberedContent_def dw)
qed

section \<open>Text without the characters of a stage\<close>

text \<open>The character with which every match of a pattern starts.\<close>

fun trigger :: "pattern \<Rightarrow> char" where
  "trigger PBold = CHR ''*''"
| "trigger PItalic = CHR ''*''"
| "trigger PCode = CHR 0x60"
| "trigger PLink = CHR ''[''"

lemma delimited_opener:
  assumes "delimited opn ok cls s = Some r"
  shows "set opn \<subseteq> set s"
proof -
  obtain c n where "r = (c, n)" by (cases r)
  with assms delimited_SomeD(1) [of opn ok cls s c n] show ?thesis by auto
qed

lemma regex_trigger:
  assumes "regex p i s = Some r"
  shows "trigger p \<in> set s"
proof -
  obtain n gs where r: "r = (n, gs)" by (cases r)
  show ?thesis
  proof (cases "p = PLink")
    case True
    with assms r have "regex PLink i s = Some (n, gs)" by simp
    from regex_linkD [OF this] obtain c k where
      "delimited ''['' (\<lambda>c. c \<noteq> CHR '']'') '']('' s = Some (c, k)" by blast
    from delimited_opener [OF this] True show ?thesis by simp
  next
    case False
    from assms r have "regex p i s = Some (n, gs)" by simp
    from regex_simpleD [OF this False] obtain c where
      "delimited (opener p) (inClass p) (closer p) s = Some (c, n)" by blast
    from delimited_opener [OF this] False show ?thesis by (cases p) simp_all
  qed
qed

lemma exec_from_in_set:
  assumes "exec_from m t i = Some (idx, r)" "\<And>j s. m j s = Some r \<Longrightarrow> c \<in> set s"
  shows "c \<in> set t"
proof -
  from exec_from_SomeD [OF assms(1)] have "m idx (drop idx t) = Some r" by simp
  from assms(2) [OF this] show ?thesis by (auto dest: in_set_dropD)
qed

lemma test_trigger:
  assumes "test p t"
  shows "trigger p \<in> set t"
proof -
  from assms obtain idx r where e: "exec_from (regex p) t 0 = Some (idx, r)"
    by (auto simp: test_def)
  show ?thesis by (rule exec_from_in_set [OF e]) (rule regex_trigger)
qed

lemma no_emphasis:
  assumes "t \<noteq> []" "CHR ''*'' \<notin> set t" "CHR 0x60 \<notin> set t" "CHR ''['' \<notin> set t"
  shows "parseInlineMarkdown t = [PlainText t]"
proof -
  have "\<not> test p t" for p
    using test_trigger [of p t] assms by (cases p) auto
  then have "find (\<lambda>p. test p t) patterns = None"
    by (simp add: patterns_def)
  with assms(1) show ?thesis by (simp add: parseInlineMarkdown_None)
qed

lemma inlineMathRegex_dollar:
  assumes "inlineMathRegex i s = Some r"
  shows "CHR ''$'' \<in> set s"
proof -
  from assms obtain x where "delimited ''$'' (\<lambda>c. c \<noteq> CHR ''$'' \<and> c \<noteq> CHR 0x0A) ''$'' s = Some x"
    by (auto simp: inlineMathRegex_def split: option.splits)
  from delimited_opener [OF this] show ?thesis by simp
qed

lemma parseMarkdown_Nil: "parseMarkdown [] = []"
  by (simp add: parseMarkdown_def)

lemma no_inline_math:
  assumes "CHR ''$'' \<notin> set t"
  shows "parseInlineContent throws t = parseMarkdown t"
proof -
  have "exec_from inlineMathRegex t 0 = None"
  proof (cases "exec_from inlineMathRegex t 0")
    case (Some a)
    obtain idx r where "a = (idx, r)" by (cases a)
    with Some have e: "exec_from inlineMathRegex t 0 = Some (idx, r)" by simp
    have "CHR ''$'' \<in> set t"
      by (rule exec_from_in_set [OF e]) (rule inlineMathRegex_dollar)
    with assms show ?thesis by simp
  qed simp
  then have "inlineMathLoop throws t 0 = (if 0 < length t then parseMarkdown t else [])"
    by (simp add: inlineMathLoop.simps [of throws t 0])
  then show ?thesis
    by (cases t) (simp_all add: parseInlineContent_def parseMarkdown_Nil)
qed

lemma pipeLine_pipe: "pipeLine cls s = Some n \<Longrightarrow> CHR ''|'' \<in> set s"
  by (auto simp: pipeLine_def Let_def split: list.splits if_splits)

lemma tableBody_pipe: "tableBody s = Some n \<Longrightarrow> CHR ''|'' \<in> set s"
  by (auto simp: tableBody_def split: option.splits dest: pipeLine_pipe)

lemma tableRegex_pipe:
  assumes "tableRegex i s = Some n"
  shows "CHR ''|'' \<in> set s"
proof (cases "(if i = 0 then tableBody s else None)")
  case (Some k)
  then have "tableBody s = Some k" by (auto split: if_splits)
  then show ?thesis by (rule tableBody_pipe)
next
  case None
  with assms obtain r k where "s = CHR 0x0A # r" "tableBody r = Some k"
    by (auto simp: tableRegex_def split: list.splits if_splits)
  with tableBody_pipe [of r k] show ?thesis by simp
qed

lemma no_table:
  assumes "CHR ''|'' \<notin> set t"
  shows "tableLoop throws t 0 = parseInlineContent throws t"
proof -
  have "exec_from tableRegex t 0 = None"
  proof (cases "exec_from tableRegex t 0")
    case (Some a)
    obtain idx r where "a = (idx, r)" by (cases a)
    with Some have e: "exec_from tableRegex t 0 = Some (idx, r)" by simp
    have "CHR ''|'' \<in> set t"
      by (rule exec_from_in_set [OF e]) (rule tableRegex_pipe)
    with assms show ?thesis by simp
  qed simp
  then have "tableLoop throws t 0 = (if 0 < length t then parseInlineContent throws t else [])"
    by (simp add: tableLoop.simps [of throws t 0])
  moreover have "parseInlineContent throws [] = []"
    by (simp add: no_inline_math parseMarkdown_Nil)
  ultimately show ?thesis
    by (cases t) simp_all
qed

lemma startsWith_dollars: "startsWith s ''$$'' \<Longrightarrow> CHR ''$'' \<in> set s"
  by (auto simp: startsWith_iff)

lemma blockRegex_dollar: "blockRegex s = Some n \<Longrightarrow> CHR ''$'' \<in> set s"
  by (auto simp: blockRegex_def split: if_splits dest: startsWith_dollars)

lemma splitLoop_no_dollar:
  "CHR ''$'' \<notin> set t \<Longrightarrow> splitLoop t p q = [slice t p (length t)]"
proof (induction t p q rule: splitLoop.induct)
  case (1 t p q)
  show ?case
  proof (cases "q < length t")
    case True
    have "blockRegex (drop q t) = None"
    proof (cases "blockRegex (drop q t)")
      case (Some n)
      from blockRegex_dollar [OF Some] have "CHR ''$'' \<in> set t" by (auto dest: in_set_dropD)
      with "1.prems" show ?thesis by blast
    qed simp
    with "1.IH"(1) [OF True this "1.prems"] True show ?thesis
      by (simp add: splitLoop.simps [of t p q])
  next
    case False
    then show ?thesis by (simp add: splitLoop.simps [of t p q])
  qed
qed

lemma no_block_math:
  assumes "CHR ''$'' \<notin> set t"
  shows "parseContent throws t = tableLoop throws t 0"
proof -
  from assms have "splitBlockMath t = [t]"
    by (simp add: splitBlockMath_def splitLoop_no_dollar slice_def)
  moreover from assms have "\<not> startsWith t ''$$''"
    by (auto dest: startsWith_dollars)
  ultimately show ?thesis by (simp add: parseContent_def partElements_def)
qed

lemma no_dollar_no_pipe:
  assumes "CHR ''$'' \<notin> set t" "CHR ''|'' \<notin> set t"
  shows "parseContent throws t = parseMarkdown t"
  using assms by (simp add: no_block_math no_table no_inline_math)

section \<open>Properties of the block splitter\<close>

lemma splitLoop_skip:
  assumes "q \<le> q'" "q' \<le> length t" "\<And>j. q \<le> j \<Longrightarrow> j < q' \<Longrightarrow> blockRegex (drop j t) = None"
  shows "splitLoop t p q = splitLoop t p q'"
  using assms
proof (induction "q' - q" arbitrary: q)
  case 0
  then show ?case by simp
next
  case (Suc d)
  then have lt: "q < q'" "q < length t" by simp_all
  with Suc.prems(3) [of q] have "blockRegex (drop q t) = None" by simp
  with lt have "splitLoop t p q = splitLoop t p (Suc q)"
    by (simp add: splitLoop.simps [of t p q])
  also have "\<dots> = splitLoop t p q'"
  proof (rule Suc.hyps(1))
    show "d = q' - Suc q" using Suc.hyps(2) by simp
    show "Suc q \<le> q'" using lt by simp
    show "q' \<le> length t" by fact
    show "blockRegex (drop j t) = None" if "Suc q \<le> j" "j < q'" for j
      using Suc.prems(3) [of j] that by simp
  qed
  finally show ?case .
qed

lemma splitLoop_end: "length t \<le> q \<Longrightarrow> splitLoop t p q = [slice t p (length t)]"
  by (simp add: splitLoop.simps [of t p q])

lemma splitLoop_match:
  "q < length t \<Longrightarrow> blockRegex (drop q t) = Some n \<Longrightarrow>
     splitLoop t p q = slice t p q # slice t q (q + n) # splitLoop t (q + n) (q + n)"
  by (simp add: splitLoop.simps [of t p q])

text \<open>
  Plain content or a formula between two markers: a text in which no two dollars stand
  in a row and that does not end with a dollar, so that the markers around it are the
  only places where two dollars meet.
\<close>

fun hasMarker :: "string \<Rightarrow> bool" where
  "hasMarker (c # d # r) = ((c = CHR ''$'' \<and> d = CHR ''$'') \<or> hasMarker (d # r))"
| "hasMarker r = False"

definition gapText :: "string \<Rightarrow> bool" where
  "gapText g = (\<not> hasMarker g \<and> \<not> endsWith g ''$'')"

lemma hasMarker_Cons: "hasMarker cs \<Longrightarrow> hasMarker (c # cs)"
  by (cases cs) simp_all

lemma hasMarker_drop: "hasMarker (drop k s) \<Longrightarrow> hasMarker s"
proof (induction k arbitrary: s)
  case 0
  then show ?case by simp
next
  case (Suc k)
  show ?case
  proof (cases s)
    case Nil
    with Suc.prems show ?thesis by simp
  next
    case (Cons c cs)
    with Suc.prems have "hasMarker (drop k cs)" by simp
    from Suc.IH [OF this] Cons show ?thesis by (simp add: hasMarker_Cons)
  qed
qed

lemma hasMarker_startsWith: "startsWith s ''$$'' \<Longrightarrow> hasMarker s"
  by (auto simp: startsWith_iff)

lemma blockRegex_marker: "blockRegex s = Some n \<Longrightarrow> hasMarker s"
  by (auto simp: blockRegex_def split: if_splits dest: hasMarker_startsWith)

lemma no_dollar_gapText: "CHR ''$'' \<notin> set g \<Longrightarrow> gapText g"
proof -
  assume a: "CHR ''$'' \<notin> set g"
  have "hasMarker s \<Longrightarrow> CHR ''$'' \<in> set s" for s
    by (induction s rule: hasMarker.induct) auto
  moreover have "endsWith s ''$'' \<Longrightarrow> CHR ''$'' \<in> set s" for s
    by (auto simp: endsWith_def dest: arg_cong [where f = set] in_set_dropD)
      (metis in_set_dropD list.set_intros(1))
  ultimately show ?thesis using a by (auto simp: gapText_def)
qed

lemma gapText_tl: "gapText (c # cs) \<Longrightarrow> gapText cs"
proof -
  assume a: "gapText (c # cs)"
  then have "\<not> hasMarker cs" by (auto simp: gapText_def dest: hasMarker_Cons)
  moreover have "\<not> endsWith cs ''$''"
  proof
    assume e: "endsWith cs ''$''"
    then obtain k where k: "length cs = Suc k" by (cases cs) (auto simp: endsWith_def)
    with e have "endsWith (c # cs) ''$''" by (simp add: endsWith_def)
    with a show False by (simp add: gapText_def)
  qed
  ultimately show ?thesis by (simp add: gapText_def)
qed

lemma gapText_no_start:
  assumes "gapText (c # cs)"
  shows "\<not> startsWith ((c # cs) @ CHR ''$'' # rest) ''$$''"
proof
  assume s: "startsWith ((c # cs) @ CHR ''$'' # rest) ''$$''"
  show False
  proof (cases cs)
    case Nil
    with s have "c = CHR ''$''" by (simp add: startsWith_def)
    with Nil assms show False by (simp add: gapText_def endsWith_def)
  next
    case (Cons e es)
    with s have "c = CHR ''$''" "e = CHR ''$''" by (simp_all add: startsWith_def)
    with Cons assms show False by (simp add: gapText_def)
  qed
qed

lemma findClose_gap: "gapText m \<Longrightarrow> findClose (m @ ''$$'' @ tail) = Some (length m)"
proof (induction m)
  case Nil
  then show ?case by (simp add: startsWith_def)
next
  case (Cons c cs)
  from gapText_no_start [OF Cons.prems, of "CHR ''$'' # tail"]
  have "\<not> startsWith (c # cs @ ''$$'' @ tail) ''$$''" by simp
  with Cons.IH [OF gapText_tl [OF Cons.prems]] show ?case by simp
qed

lemma blockRegex_block:
  "gapText m \<Longrightarrow> blockRegex (''$$'' @ m @ ''$$'' @ tail) = Some (length m + 4)"
  using findClose_gap [of m tail] by (simp add: blockRegex_def startsWith_def)

lemma gapText_drop: "gapText g \<Longrightarrow> gapText (drop k g)"
proof (induction k arbitrary: g)
  case 0
  then show ?case by simp
next
  case (Suc k)
  then show ?case by (cases g) (auto dest: gapText_tl)
qed

lemma gap_no_match:
  assumes "gapText g" "length d \<le> j" "j < length d + length g"
    and "rest = [] \<or> hd rest = CHR ''$''"
  shows "blockRegex (drop j (d @ g @ rest)) = None"
proof -
  from assms(2,3) have dr: "drop j (d @ g @ rest) = drop (j - length d) g @ rest" by simp
  from assms(2,3) obtain c cs where cs: "drop (j - length d) g = c # cs"
    by (cases "drop (j - length d) g") auto
  from gapText_drop [OF assms(1), of "j - length d"] cs have g: "gapText (c # cs)" by simp
  have "\<not> startsWith ((c # cs) @ rest) ''$$''"
  proof (cases rest)
    case Nil
    from g have "\<not> hasMarker (c # cs)" by (simp add: gapText_def)
    with Nil show ?thesis by (auto dest: hasMarker_startsWith)
  next
    case (Cons r rs)
    with assms(4) have "rest = CHR ''$'' # rs" by simp
    with gapText_no_start [OF g, of rs] show ?thesis by simp
  qed
  with dr cs show ?thesis by (simp add: blockRegex_def)
qed

text \<open>A text of block-math regions \<open>m\<close>, each followed by plain content \<open>p\<close>.\<close>

definition mathBody :: "(string \<times> string) list \<Rightarrow> string" where
  "mathBody mps = concat (map (\<lambda>(m, p). ''$$'' @ m @ ''$$'' @ p) mps)"

lemma mathBody_start: "mathBody mps = [] \<or> hd (mathBody mps) = CHR ''$''"
  by (cases mps) (auto simp: mathBody_def)

lemma slice_middle: "slice (d @ g @ rest) (length d) (length d + length g) = g"
  by (simp add: slice_def)

lemma splitLoop_blocks:
  assumes "gapText g" "\<forall>(m, p)\<in>set mps. gapText m \<and> gapText p"
  shows "splitLoop (d @ g @ mathBody mps) (length d) (length d) =
     g # concat (map (\<lambda>(m, p). [''$$'' @ m @ ''$$'', p]) mps)"
  using assms
proof (induction mps arbitrary: d g)
  case Nil
  let ?t = "d @ g @ mathBody []"
  have "splitLoop ?t (length d) (length d) = splitLoop ?t (length d) (length ?t)"
  proof (rule splitLoop_skip)
    show "blockRegex (drop j ?t) = None" if "length d \<le> j" "j < length ?t" for j
      using gap_no_match [OF Nil.prems(1) that(1), of "mathBody []"] that(2)
      by (simp add: mathBody_def)
  qed (simp_all add: mathBody_def)
  also have "\<dots> = [slice ?t (length d) (length ?t)]"
    by (rule splitLoop_end) simp
  also have "\<dots> = [g]" by (simp add: slice_def mathBody_def)
  finally show ?case by simp
next
  case (Cons a mps)
  obtain m p where a: "a = (m, p)" by (cases a)
  with Cons.prems have m: "gapText m" and p: "gapText p"
    and rest: "\<forall>(m, p)\<in>set mps. gapText m \<and> gapText p" by auto
  let ?blk = "''$$'' @ m @ ''$$''"
  let ?tail = "p @ mathBody mps"
  let ?t = "d @ g @ mathBody (a # mps)"
  let ?q = "length d + length g"
  have t: "?t = d @ g @ ?blk @ ?tail" by (simp add: a mathBody_def)
  have t2: "?t = (d @ g @ ?blk) @ p @ mathBody mps" by (simp add: a mathBody_def)
  have dq: "drop ?q ?t = ''$$'' @ m @ ''$$'' @ ?tail"
    unfolding t by simp
  have br: "blockRegex (drop ?q ?t) = Some (length m + 4)"
    unfolding dq by (rule blockRegex_block [OF m])
  have "splitLoop ?t (length d) (length d) = splitLoop ?t (length d) ?q"
  proof (rule splitLoop_skip)
    show "blockRegex (drop j ?t) = None" if "length d \<le> j" "j < ?q" for j
      unfolding t by (rule gap_no_match [OF Cons.prems(1) that]) simp
  qed (simp_all add: t)
  also have "\<dots> = slice ?t (length d) ?q # slice ?t ?q (?q + (length m + 4))
      # splitLoop ?t (?q + (length m + 4)) (?q + (length m + 4))"
    by (rule splitLoop_match [OF _ br]) (simp add: t)
  also have "slice ?t (length d) ?q = g" unfolding t by (rule slice_middle)
  also have "slice ?t ?q (?q + (length m + 4)) = ?blk"
  proof -
    have "slice ((d @ g) @ ?blk @ ?tail) (length (d @ g)) (length (d @ g) + length ?blk) = ?blk"
      by (rule slice_middle)
    moreover have "length ?blk = length m + 4" by simp
    moreover have "?t = (d @ g) @ ?blk @ ?tail" by (simp add: t)
    ultimately show ?thesis by (simp only: length_append)
  qed
  also have "splitLoop ?t (?q + (length m + 4)) (?q + (length m + 4)) =
      p # concat (map (\<lambda>(m, p). [''$$'' @ m @ ''$$'', p]) mps)"
  proof -
    have "length (d @ g @ ?blk) = ?q + (length m + 4)" by simp
    with Cons.IH [OF p rest, of "d @ g @ ?blk"] show ?thesis unfolding t2 by (simp only:)
  qed
  finally show ?case by (simp add: a)
qed

lemma splitBlockMath_blocks:
  assumes "gapText g" "\<forall>(m, p)\<in>set mps. gapText m \<and> gapText p"
  shows "splitBlockMath (g @ mathBody mps) = g # concat (map (\<lambda>(m, p). [''$$'' @ m @ ''$$'', p]) mps)"
  using splitLoop_blocks [OF assms, of "[]"] by (simp add: splitBlockMath_def)

lemma partElements_block:
  "partElements throws (''$$'' @ m @ ''$$'') =
     [if throws (trim m) then ErrorCode (''$$'' @ m @ ''$$'') else BlockMath (trim m)]"
  by (simp add: partElements_def startsWith_def endsWith_def slice_def Let_def)

lemma partElements_plain:
  assumes "gapText g"
  shows "partElements throws g = parseContent throws g"
proof -
  from assms have nm: "\<not> hasMarker g" by (simp add: gapText_def)
  then have ns: "\<not> startsWith g ''$$''" by (auto dest: hasMarker_startsWith)
  have "splitBlockMath g = [g]"
    using splitBlockMath_blocks [OF assms, of "[]"] by (simp add: mathBody_def)
  with ns show ?thesis by (simp add: parseContent_def)
qed

lemma parts_concat:
  assumes "\<forall>(m, p)\<in>set mps. gapText m \<and> gapText p"
  shows "concat (map (partElements throws) (concat (map (\<lambda>(m, p). [''$$'' @ m @ ''$$'', p]) mps))) =
    concat (map (\<lambda>(m, p). (if throws (trim m) then ErrorCode (''$$'' @ m @ ''$$'') else BlockMath (trim m))
       # parseContent throws p) mps)"
  using assms
proof (induction mps)
  case Nil
  then show ?case by simp
next
  case (Cons a mps)
  obtain m p where a: "a = (m, p)" by (cases a)
  with Cons.prems have p: "gapText p"
    and rest: "\<forall>(m, p)\<in>set mps. gapText m \<and> gapText p" by auto
  from Cons.IH [OF rest] partElements_plain [OF p, of throws] partElements_block [of throws m]
  show ?case by (simp add: a del: append.simps)
qed

lemma block_math_split:
  assumes "gapText p0" "\<forall>(m, p)\<in>set mps. gapText m \<and> gapText p"
  shows "parseContent throws (p0 @ concat (map (\<lambda>(m, p). ''$$'' @ m @ ''$$'' @ p) mps)) =
      parseContent throws p0 @
      concat (map (\<lambda>(m, p). (if throws (trim m) then ErrorCode (''$$'' @ m @ ''$$'') else BlockMath (trim m))
         # parseContent throws p) mps)"
proof -
  have "parseContent throws (p0 @ mathBody mps) =
      concat (map (partElements throws) (p0 # concat (map (\<lambda>(m, p). [''$$'' @ m @ ''$$'', p]) mps)))"
    by (simp only: parseContent_def splitBlockMath_blocks [OF assms])
  also have "\<dots> = parseContent throws p0 @ concat (map (\<lambda>(m, p).
       (if throws (trim m) then ErrorCode (''$$'' @ m @ ''$$'') else BlockMath (trim m))
         # parseContent throws p) mps)"
    using parts_concat [OF assms(2), of throws] partElements_plain [OF assms(1), of throws] by simp
  finally show ?thesis by (simp add: mathBody_def)
qed

section \<open>Properties of the table extractor\<close>

text \<open>A line of a pipe table as \<^verbatim>\<open>tableRegex\<close> wants it: a pipe first, a pipe last, one
  character or more between them, no line feed.\<close>

definition pipeRow :: "string \<Rightarrow> bool" where
  "pipeRow l = (3 \<le> length l \<and> hd l = CHR ''|'' \<and> last l = CHR ''|'' \<and> CHR 0x0A \<notin> set l)"

lemma pipeRowD:
  assumes "pipeRow l"
  shows "\<exists>x0 x. l = CHR ''|'' # x0 # x @ ''|'' \<and> CHR 0x0A \<notin> set (x0 # x)"
proof -
  from assms obtain a l1 where l: "l = a # l1" "2 \<le> length l1" "a = CHR ''|''"
    by (cases l) (auto simp: pipeRow_def)
  then obtain b l2 where l1: "l1 = b # l2" "l2 \<noteq> []" by (cases l1) (auto simp: Suc_le_eq)
  from l1 have "l2 = butlast l2 @ [last l2]" by simp
  moreover from assms l l1 have "last l2 = CHR ''|''" by (simp add: pipeRow_def)
  ultimately have "l = CHR ''|'' # b # butlast l2 @ ''|''" using l l1 by simp
  moreover from assms l l1 have "CHR 0x0A \<notin> set (b # butlast l2)"
    by (auto simp: pipeRow_def dest: in_set_butlastD)
  ultimately show ?thesis by blast
qed

lemma isSpace_simps [simp]: "\<not> isSpace (CHR ''|'')" "isSpace (CHR 0x0A)"
  by (simp_all add: isSpace_def)

lemma class_simps [simp]: "\<not> notNewline (CHR 0x0A)" "\<not> sepClass (CHR 0x0A)" "notNewline (CHR ''|'')"
  by (simp_all add: notNewline_def sepClass_def)

lemma pipeLine_line:
  assumes "2 \<le> length run" "last run = CHR ''|''" "\<forall>c\<in>set run. cls c" "\<not> cls (CHR 0x0A)"
  shows "pipeLine cls ((CHR ''|'' # run) @ CHR 0x0A # rest) = Some (length (CHR ''|'' # run) + 1)"
proof -
  from assms(3,4) have "takeWhile cls (run @ CHR 0x0A # rest) = run"
    by (simp add: takeWhile_append)
  with assms(1,2) show ?thesis
    by (simp add: pipeLine_def startsWith_def)
qed

lemma pipeLine_header:
  assumes "pipeRow h"
  shows "pipeLine notNewline (h @ CHR 0x0A # rest) = Some (length h + 1)"
proof -
  from pipeRowD [OF assms] obtain x0 x where h: "h = CHR ''|'' # (x0 # x @ ''|'')"
    and nl: "CHR 0x0A \<notin> set (x0 # x)" by auto
  have "pipeLine notNewline ((CHR ''|'' # (x0 # x @ ''|'')) @ CHR 0x0A # rest)
      = Some (length (CHR ''|'' # (x0 # x @ ''|'')) + 1)"
    using nl by (intro pipeLine_line) (auto simp: notNewline_def)
  then show ?thesis by (simp only: h)
qed

lemma pipeLine_separator:
  assumes "pipeRow sp" "list_all sepClass sp"
  shows "pipeLine sepClass (sp @ CHR 0x0A # rest) = Some (length sp + 1)"
proof -
  from pipeRowD [OF assms(1)] obtain x0 x where h: "sp = CHR ''|'' # (x0 # x @ ''|'')" by auto
  have "pipeLine sepClass ((CHR ''|'' # (x0 # x @ ''|'')) @ CHR 0x0A # rest)
      = Some (length (CHR ''|'' # (x0 # x @ ''|'')) + 1)"
    using assms(2) unfolding h by (intro pipeLine_line) (auto simp: list_all_iff)
  then show ?thesis by (simp only: h)
qed

lemma uptoLastPipe_ends: "uptoLastPipe (x @ ''|'') = x @ ''|''"
  by (simp add: uptoLastPipe_def)

lemma rowLen_row:
  assumes "pipeRow r"
  shows "rowLen (r @ CHR 0x0A # rest) = Some (length r + 1)"
proof -
  from pipeRowD [OF assms] obtain x0 x where r: "r = CHR ''|'' # x0 # x @ ''|''"
    and nl: "CHR 0x0A \<notin> set (x0 # x)" by auto
  from nl have tw: "takeWhile notNewline ((x @ ''|'') @ CHR 0x0A # rest) = x @ ''|''"
    by (subst takeWhile_append2) (auto simp: notNewline_def)
  have dr: "drop (length x) (x @ CHR ''|'' # CHR 0x0A # rest) = CHR ''|'' # CHR 0x0A # rest"
    by simp
  from nl have "notNewline x0" by (auto simp: notNewline_def)
  with tw show ?thesis
    unfolding r by (simp add: rowLen_def uptoLastPipe_ends Let_def startsWith_def)
qed

lemma rowLen_Nil: "rowLen [] = None"
  by (simp add: rowLen_def)

lemma rowsLen_Nil: "rowsLen [] = 0"
  by (simp add: rowsLen.simps [of "[]"] rowLen_Nil)

lemma lines_shift:
  "concat (map (\<lambda>l. l @ [d]) (l0 # ls)) = (l0 @ concat (map ((#) d) ls)) @ [d]"
  by (induction ls arbitrary: l0) simp_all

lemma split_char_prefix:
  "d \<notin> set l0 \<Longrightarrow> split_char d (l0 @ d # rest) = l0 # split_char d rest"
  by (induction l0) auto

lemma split_char_joined:
  "d \<notin> set l0 \<Longrightarrow> \<forall>l\<in>set ls. d \<notin> set l \<Longrightarrow>
     split_char d (l0 @ concat (map ((#) d) ls)) = l0 # ls"
proof (induction ls arbitrary: l0)
  case Nil
  then show ?case by (simp add: split_char_absent)
next
  case (Cons l ls)
  from Cons.prems have "d \<notin> set l" "\<forall>l\<in>set ls. d \<notin> set l" by simp_all
  from Cons.IH [OF this] Cons.prems(1) show ?case
    by (simp add: split_char_prefix)
qed

lemma trim_eq_Nil: "trim l = [] \<longleftrightarrow> (\<forall>c\<in>set l. isSpace c)"
proof -
  have "trim l = [] \<longleftrightarrow> (\<forall>c\<in>set (dropWhile isSpace l). isSpace c)"
    by (simp add: trim_def dropWhile_eq_Nil_conv)
  also have "\<dots> \<longleftrightarrow> dropWhile isSpace l = []"
  proof (cases "dropWhile isSpace l")
    case (Cons a as)
    then have "\<not> isSpace a" by (metis hd_dropWhile list.sel(1) list.distinct(1))
    with Cons show ?thesis by auto
  qed (auto dest: set_dropWhileD)
  also have "\<dots> \<longleftrightarrow> (\<forall>c\<in>set l. isSpace c)" by (simp add: dropWhile_eq_Nil_conv)
  finally show ?thesis .
qed

lemma pipeRow_has_pipe: "pipeRow l \<Longrightarrow> CHR ''|'' \<in> set l"
  by (auto dest!: pipeRowD)

lemma pipeRow_nonblank: "pipeRow l \<Longrightarrow> trim l \<noteq> []"
  using pipeRow_has_pipe [of l] by (auto simp: trim_eq_Nil intro!: bexI [of _ "CHR ''|''"])

lemma pipeRow_no_newline: "pipeRow l \<Longrightarrow> CHR 0x0A \<notin> set l"
  by (simp add: pipeRow_def)

lemma tableBody_Nil: "tableBody [] = None"
  by (simp add: tableBody_def pipeLine_def)

lemma tableLoop_end: "tableLoop throws t (length t) = []"
proof -
  have "exec_from tableRegex t (length t) = None"
    by (simp add: exec_from_None tableRegex_def tableBody_Nil)
  then show ?thesis by (simp add: tableLoop.simps [of throws t "length t"])
qed

lemma last_joined:
  "list_all pipeRow ls \<Longrightarrow> ls \<noteq> [] \<Longrightarrow> last (concat (map ((#) d) ls)) = CHR ''|''"
proof (induction ls)
  case Nil
  then show ?case by simp
next
  case (Cons l ls)
  from Cons.prems have l: "pipeRow l" and ls: "list_all pipeRow ls" by simp_all
  from l have ne: "l \<noteq> []" and la: "last l = CHR ''|''" by (auto simp: pipeRow_def)
  show ?case
  proof (cases "ls = []")
    case True
    with ne la show ?thesis by simp
  next
    case False
    then have "concat (map ((#) d) ls) \<noteq> []" by (cases ls) simp_all
    with Cons.IH [OF ls False] show ?thesis by simp
  qed
qed

lemma sepClass_no_dollar: "sepClass c \<Longrightarrow> c \<noteq> CHR ''$''"
  by (auto simp: sepClass_def)

lemma pipeLine_SomeD:
  assumes "pipeLine cls s = Some n" "\<And>c. cls c \<Longrightarrow> c \<noteq> CHR 0x0A"
  shows "\<exists>run rest. s = (CHR ''|'' # run) @ CHR 0x0A # rest \<and> n = length (CHR ''|'' # run) + 1
     \<and> CHR 0x0A \<notin> set run \<and> run \<noteq> [] \<and> last run = CHR ''|''"
proof -
  from assms(1) obtain c r where s: "s = c # r" by (cases s) (auto simp: pipeLine_def)
  let ?run = "takeWhile cls r"
  from assms(1) s have c: "c = CHR ''|''" and len: "2 \<le> length ?run" and la: "last ?run = CHR ''|''"
    and st: "startsWith (drop (length ?run) r) [CHR 0x0A]" and n: "n = length ?run + 2"
    by (auto simp: pipeLine_def Let_def split: if_splits)
  from st obtain rest where "drop (length ?run) r = CHR 0x0A # rest"
    by (auto simp: startsWith_iff)
  moreover have "r = ?run @ drop (length ?run) r"
    by (metis takeWhile_dropWhile_id dropWhile_eq_drop)
  ultimately have r: "r = ?run @ CHR 0x0A # rest" by simp
  have "CHR 0x0A \<notin> set ?run" using assms(2) by (auto dest: set_takeWhileD)
  moreover from len have "?run \<noteq> []" by auto
  ultimately show ?thesis using s c r n la
    by (intro exI [of _ ?run] exI [of _ rest]) simp
qed

lemma tableBody_SomeD:
  assumes "tableBody s = Some n"
  shows "\<exists>r1 r2 x. take n s = (CHR ''|'' # r1) @ CHR 0x0A # (CHR ''|'' # r2) @ CHR 0x0A # x
     \<and> CHR 0x0A \<notin> set r1 \<and> CHR 0x0A \<notin> set r2 \<and> r2 \<noteq> [] \<and> last r2 = CHR ''|''"
proof -
  from assms obtain h p where h: "pipeLine notNewline s = Some h"
    and p: "pipeLine sepClass (drop h s) = Some p" and n: "n = h + p + rowsLen (drop (h + p) s)"
    by (auto simp: tableBody_def split: option.splits)
  from pipeLine_SomeD [OF h] obtain r1 rest1 where
    s: "s = (CHR ''|'' # r1) @ CHR 0x0A # rest1" and hl: "h = length (CHR ''|'' # r1) + 1"
    and n1: "CHR 0x0A \<notin> set r1"
    by (auto simp: notNewline_def)
  have d1: "drop h s = rest1" unfolding hl by (subst s) simp
  from pipeLine_SomeD [OF p] obtain r2 rest2 where
    s2: "drop h s = (CHR ''|'' # r2) @ CHR 0x0A # rest2" and pl: "p = length (CHR ''|'' # r2) + 1"
    and n2: "CHR 0x0A \<notin> set r2" "r2 \<noteq> []" "last r2 = CHR ''|''"
    by (auto simp: sepClass_def)
  from d1 s2 have r1: "rest1 = (CHR ''|'' # r2) @ CHR 0x0A # rest2" by simp
  have s': "s = ((CHR ''|'' # r1) @ CHR 0x0A # (CHR ''|'' # r2) @ [CHR 0x0A]) @ rest2"
    by (subst s, subst r1) simp
  have hp: "h + p = length ((CHR ''|'' # r1) @ CHR 0x0A # (CHR ''|'' # r2) @ [CHR 0x0A])"
    unfolding hl pl by simp
  have "take n s = take (h + p) s @ take (rowsLen (drop (h + p) s)) (drop (h + p) s)"
    unfolding n by (simp add: take_add)
  also have "take (h + p) s = (CHR ''|'' # r1) @ CHR 0x0A # (CHR ''|'' # r2) @ [CHR 0x0A]"
    unfolding hp by (subst s') (rule take_length_append)
  finally have "take n s = (CHR ''|'' # r1) @ CHR 0x0A # (CHR ''|'' # r2) @ CHR 0x0A
      # take (rowsLen (drop (h + p) s)) (drop (h + p) s)" by simp
  with n1 n2 show ?thesis by blast
qed

lemma rtrim_shape:
  "rev (dropWhile P (rev (d # x))) = [] \<or> (\<exists>z. rev (dropWhile P (rev (d # x))) = d # z)"
proof (cases "\<forall>c\<in>set x. P c")
  case True
  then have "dropWhile P (rev x @ [d]) = dropWhile P [d]" by (simp add: dropWhile_append)
  then show ?thesis by (cases "P d") simp_all
next
  case False
  then have "dropWhile P (rev x @ [d]) = dropWhile P (rev x) @ [d]" by (simp add: dropWhile_append)
  then show ?thesis by simp
qed

lemma trim_table_shape:
  assumes "pre = [] \<or> pre = [CHR 0x0A]" "r2 \<noteq> []" "last r2 = CHR ''|''"
  shows "\<exists>z. trim (pre @ (CHR ''|'' # r1) @ CHR 0x0A # (CHR ''|'' # r2) @ CHR 0x0A # x)
      = (CHR ''|'' # r1) @ CHR 0x0A # (CHR ''|'' # r2) @ z
    \<and> (z = [] \<or> (\<exists>z'. z = CHR 0x0A # z'))"
proof -
  let ?L = "(CHR ''|'' # r1) @ CHR 0x0A # (CHR ''|'' # r2)"
  let ?z = "rev (dropWhile isSpace (rev (CHR 0x0A # x)))"
  from assms(1) have "dropWhile isSpace (pre @ ?L @ CHR 0x0A # x) = ?L @ CHR 0x0A # x"
    by auto
  then have "trim (pre @ ?L @ CHR 0x0A # x) = rev (dropWhile isSpace (rev (CHR 0x0A # x) @ rev ?L))"
    by (simp add: trim_def)
  also from assms(2,3) have "dropWhile isSpace (rev ?L) = rev ?L"
    by (cases r2 rule: rev_cases) simp_all
  then have "dropWhile isSpace (rev (CHR 0x0A # x) @ rev ?L) = dropWhile isSpace (rev (CHR 0x0A # x)) @ rev ?L"
    by (simp only: dropWhile_append split: if_splits) auto
  also have "rev (dropWhile isSpace (rev (CHR 0x0A # x)) @ rev ?L) = ?L @ ?z"
    by (simp only: rev_append rev_rev_ident)
  finally have "trim (pre @ ?L @ CHR 0x0A # x) = ?L @ ?z" .
  with rtrim_shape [of isSpace "CHR 0x0A" x] show ?thesis
    by (intro exI [of _ ?z]) simp
qed

lemma split_two_lines:
  assumes "CHR 0x0A \<notin> set l1" "CHR 0x0A \<notin> set l2" "z = [] \<or> (\<exists>z'. z = CHR 0x0A # z')"
  shows "\<exists>ls. split_char (CHR 0x0A) (l1 @ CHR 0x0A # l2 @ z) = l1 # l2 # ls"
proof -
  have "\<exists>ls. split_char (CHR 0x0A) (l2 @ z) = l2 # ls"
  proof (cases "z = []")
    case True
    with assms(2) show ?thesis by (simp add: split_char_absent)
  next
    case False
    with assms(3) obtain z' where "z = CHR 0x0A # z'" by blast
    with assms(2) show ?thesis by (simp add: split_char_prefix)
  qed
  with assms(1) show ?thesis by (auto simp: split_char_prefix)
qed

lemma render_shape:
  assumes "pre = [] \<or> pre = [CHR 0x0A]"
    and "CHR 0x0A \<notin> set r1" "CHR 0x0A \<notin> set r2" "r2 \<noteq> []" "last r2 = CHR ''|''"
  shows "\<exists>hs rs. renderMarkdownTable
      (pre @ (CHR ''|'' # r1) @ CHR 0x0A # (CHR ''|'' # r2) @ CHR 0x0A # x) = Table hs rs"
proof -
  let ?m = "pre @ (CHR ''|'' # r1) @ CHR 0x0A # (CHR ''|'' # r2) @ CHR 0x0A # x"
  from trim_table_shape [OF assms(1,4,5), of r1 x] obtain z where
    tr: "trim ?m = (CHR ''|'' # r1) @ CHR 0x0A # (CHR ''|'' # r2) @ z"
    and z: "z = [] \<or> (\<exists>z'. z = CHR 0x0A # z')" by blast
  from assms(2,3) have "CHR 0x0A \<notin> set (CHR ''|'' # r1)" "CHR 0x0A \<notin> set (CHR ''|'' # r2)"
    by simp_all
  from split_two_lines [OF this z] obtain ls where
    "split_char (CHR 0x0A) ((CHR ''|'' # r1) @ CHR 0x0A # (CHR ''|'' # r2) @ z)
       = (CHR ''|'' # r1) # (CHR ''|'' # r2) # ls" by blast
  with tr have sp: "split_char (CHR 0x0A) (trim ?m) = (CHR ''|'' # r1) # (CHR ''|'' # r2) # ls"
    by simp
  have nb: "trim (CHR ''|'' # r) \<noteq> []" for r
    by (auto simp: trim_eq_Nil intro!: bexI [of _ "CHR ''|''"])
  show ?thesis unfolding renderMarkdownTable_def sp by (simp add: nb)
qed

lemma render_match_is_table:
  assumes "tableRegex i s = Some n"
  shows "\<exists>hs rs. renderMarkdownTable (take n s) = Table hs rs"
proof (cases "(if i = 0 then tableBody s else None)")
  case (Some k)
  with assms have "tableBody s = Some n"
    by (auto simp: tableRegex_def split: if_splits)
  from tableBody_SomeD [OF this] obtain r1 r2 x where
    "take n s = [] @ (CHR ''|'' # r1) @ CHR 0x0A # (CHR ''|'' # r2) @ CHR 0x0A # x"
    "CHR 0x0A \<notin> set r1" "CHR 0x0A \<notin> set r2" "r2 \<noteq> []" "last r2 = CHR ''|''" by auto
  with render_shape [of "[]" r1 r2 x] show ?thesis by simp
next
  case None
  with assms obtain r k where s: "s = CHR 0x0A # r" and tb: "tableBody r = Some k" and n: "n = Suc k"
    by (auto simp: tableRegex_def split: list.splits if_splits)
  from tableBody_SomeD [OF tb] obtain r1 r2 x where
    "take k r = (CHR ''|'' # r1) @ CHR 0x0A # (CHR ''|'' # r2) @ CHR 0x0A # x"
    "CHR 0x0A \<notin> set r1" "CHR 0x0A \<notin> set r2" "r2 \<noteq> []" "last r2 = CHR ''|''" by auto
  with render_shape [of "[CHR 0x0A]" r1 r2 x] s n show ?thesis by simp
qed

section \<open>Well-formed results\<close>

text \<open>
  The inline nodes are the ones the inline emphasis resolver builds. A label is the
  bullet glyph or a numeral of one digit or more. A node of a result is well formed
  when it is not the \<^verbatim>\<open><span>\<close> that \<^verbatim>\<open>renderMarkdownTable\<close> returns for a text of fewer
  than two lines and, for a list item, its label is one and its children are inline
  nodes.
\<close>

fun inlineNode :: "node \<Rightarrow> bool" where
  "inlineNode (PlainText s) = True"
| "inlineNode (Bold c) = True"
| "inlineNode (Italic c) = True"
| "inlineNode (InlineCode c) = True"
| "inlineNode (Link c u) = True"
| "inlineNode n = False"

fun validLabel :: "label \<Rightarrow> bool" where
  "validLabel BulletGlyph = True"
| "validLabel (Numeral ds) = (ds \<noteq> [] \<and> list_all isDigit ds)"

fun validNode :: "node \<Rightarrow> bool" where
  "validNode (ListItem l cs) = (validLabel l \<and> list_all inlineNode cs)"
| "validNode (RawSpan s) = False"
| "validNode n = True"

lemma resolved_inline: "resolvedBy p n \<Longrightarrow> inlineNode n"
  by (cases n) (simp_all add: resolvedBy_def)

lemma inline_valid: "inlineNode n \<Longrightarrow> validNode n"
  by (cases n) simp_all

lemma parseInlineMarkdown_inline: "list_all inlineNode (parseInlineMarkdown line)"
proof (cases "find (\<lambda>p. test p line) patterns")
  case None
  then show ?thesis by (simp add: parseInlineMarkdown_None)
next
  case (Some p)
  have "list_all (resolvedBy p) (parseInlineMarkdown line)"
    using Some by (simp add: parseInlineMarkdown_Some resolved_all)
  then show ?thesis by (auto simp: list_all_iff dest: resolved_inline)
qed

lemma numberedMatch_digits: "numberedMatch line = Some ds \<Longrightarrow> ds \<noteq> [] \<and> list_all isDigit ds"
  by (auto simp: numberedMatch_def Let_def list_all_iff split: list.splits if_splits dest: set_takeWhileD)

lemma lineElements_valid: "list_all validNode (lineElements line k)"
proof -
  have "list_all validNode (parseInlineMarkdown line)"
    using parseInlineMarkdown_inline [of line] by (auto simp: list_all_iff dest: inline_valid)
  then show ?thesis
    by (auto simp: lineElements_def parseInlineMarkdown_inline split: option.splits
        dest: numberedMatch_digits)
qed

lemma forEachLine_valid: "list_all validNode (forEachLine ls k)"
  by (induction ls arbitrary: k) (simp_all add: lineElements_valid)

lemma parseMarkdown_valid: "list_all validNode (parseMarkdown t)"
  by (simp add: parseMarkdown_def forEachLine_valid)

lemma inlineMathLoop_valid: "list_all validNode (inlineMathLoop throws t i)"
proof (induction throws t i rule: inlineMathLoop.induct)
  case (1 throws t i)
  show ?case
  proof (cases "exec_from inlineMathRegex t i")
    case None
    then show ?thesis by (simp add: inlineMathLoop.simps [of throws t i] parseMarkdown_valid)
  next
    case (Some a)
    obtain idx n gs where a: "a = (idx, n, gs)" by (cases a)
    from "1.IH" [OF Some a [symmetric] refl] Some a show ?thesis
      by (simp add: inlineMathLoop.simps [of throws t i] parseMarkdown_valid Let_def)
  qed
qed

lemma parseInlineContent_valid: "list_all validNode (parseInlineContent throws t)"
  by (simp add: parseInlineContent_def inlineMathLoop_valid)

lemma tableLoop_valid: "list_all validNode (tableLoop throws t i)"
proof (induction throws t i rule: tableLoop.induct)
  case (1 throws t i)
  show ?case
  proof (cases "exec_from tableRegex t i")
    case None
    then show ?thesis by (simp add: tableLoop.simps [of throws t i] parseInlineContent_valid)
  next
    case (Some a)
    obtain idx n where a: "a = (idx, n)" by (cases a)
    with Some have e: "exec_from tableRegex t i = Some (idx, n)" by simp
    from exec_from_SomeD [OF e] have "tableRegex idx (drop idx t) = Some n" by simp
    from render_match_is_table [OF this] obtain hs rs where
      "renderMarkdownTable (slice t idx (idx + n)) = Table hs rs" by (auto simp: slice_def)
    with "1.IH" [OF Some a [symmetric]] e show ?thesis
      by (simp add: tableLoop.simps [of throws t i] parseInlineContent_valid Let_def)
  qed
qed

lemma partElements_valid: "list_all validNode (partElements throws part)"
  by (simp add: partElements_def tableLoop_valid Let_def)

section \<open>The result covers the text\<close>






























section \<open>Tables inside a text\<close>

text \<open>A text in which no match of \<^verbatim>\<open>tableRegex\<close> can start: it does not start with a
  pipe, and no line feed in it is followed by a pipe.\<close>

fun pipeAfterNewline :: "string \<Rightarrow> bool" where
  "pipeAfterNewline (c # d # r) = ((c = CHR 0x0A \<and> d = CHR ''|'') \<or> pipeAfterNewline (d # r))"
| "pipeAfterNewline r = False"

definition pipeAtLineStart :: "string \<Rightarrow> bool" where
  "pipeAtLineStart s = (startsWith s ''|'' \<or> pipeAfterNewline s)"

lemma pipeAfterNewline_Cons: "pipeAfterNewline cs \<Longrightarrow> pipeAfterNewline (c # cs)"
  by (cases cs) simp_all

lemma pipeAfterNewline_drop: "pipeAfterNewline (drop k s) \<Longrightarrow> pipeAfterNewline s"
proof (induction k arbitrary: s)
  case 0
  then show ?case by simp
next
  case (Suc k)
  show ?case
  proof (cases s)
    case Nil
    with Suc.prems show ?thesis by simp
  next
    case (Cons c cs)
    with Suc.prems have "pipeAfterNewline (drop k cs)" by simp
    from Suc.IH [OF this] Cons show ?thesis by (simp add: pipeAfterNewline_Cons)
  qed
qed

lemma pipeAfterNewline_appendI: "pipeAfterNewline a \<Longrightarrow> pipeAfterNewline (a @ b)"
  by (induction a rule: pipeAfterNewline.induct) auto

lemma pipeAtLineStart_butlast: "\<not> pipeAtLineStart pre \<Longrightarrow> \<not> pipeAtLineStart (butlast pre)"
proof (cases "pre = []")
  case True
  then show ?thesis by (simp add: pipeAtLineStart_def startsWith_def)
next
  case False
  assume a: "\<not> pipeAtLineStart pre"
  from False have p: "pre = butlast pre @ [last pre]" by simp
  have "\<not> pipeAfterNewline (butlast pre)"
    using a pipeAfterNewline_appendI [of "butlast pre" "[last pre]"] p
    by (auto simp: pipeAtLineStart_def)
  moreover have "\<not> startsWith (butlast pre) ''|''"
  proof
    assume "startsWith (butlast pre) ''|''"
    then obtain r where "butlast pre = ''|'' @ r" by (auto simp: startsWith_iff)
    with p have "pre = ''|'' @ (r @ [last pre])" by simp
    then have "startsWith pre ''|''" unfolding startsWith_iff by blast
    with a show False by (simp add: pipeAtLineStart_def)
  qed
  ultimately show ?thesis by (simp add: pipeAtLineStart_def)
qed

lemma tableBody_start: "tableBody s = Some n \<Longrightarrow> startsWith s ''|''"
  by (auto simp: tableBody_def pipeLine_def startsWith_def Let_def split: option.splits list.splits if_splits)

lemma tableRegex_start:
  assumes "tableRegex j s = Some n"
  shows "(j = 0 \<and> startsWith s ''|'') \<or> startsWith s [CHR 0x0A, CHR ''|'']"
proof (cases "(if j = 0 then tableBody s else None)")
  case (Some k)
  then have "j = 0" "tableBody s = Some k" by (auto split: if_splits)
  with tableBody_start [of s k] show ?thesis by simp
next
  case None
  with assms obtain r k where "s = CHR 0x0A # r" "tableBody r = Some k"
    by (auto simp: tableRegex_def split: list.splits if_splits)
  with tableBody_start [of r k] show ?thesis by (auto simp: startsWith_iff)
qed

lemma startsWith_pair: "startsWith s [CHR 0x0A, CHR ''|''] \<Longrightarrow> pipeAfterNewline s"
  by (auto simp: startsWith_iff)

lemma tableRegex_lineStart:
  assumes "tableRegex j (drop j t) = Some n"
  shows "pipeAtLineStart t"
proof -
  from tableRegex_start [OF assms] show ?thesis
  proof
    assume "j = 0 \<and> startsWith (drop j t) ''|''"
    then show ?thesis by (auto simp: pipeAtLineStart_def)
  next
    assume "startsWith (drop j t) [CHR 0x0A, CHR ''|'']"
    then have "pipeAfterNewline (drop j t)" by (rule startsWith_pair)
    then show ?thesis by (auto simp: pipeAtLineStart_def dest: pipeAfterNewline_drop)
  qed
qed

lemma no_table_lines:
  assumes "\<not> pipeAtLineStart t"
  shows "tableLoop throws t 0 = parseInlineContent throws t"
proof -
  have "exec_from tableRegex t 0 = None"
  proof (cases "exec_from tableRegex t 0")
    case (Some a)
    obtain idx r where "a = (idx, r)" by (cases a)
    with Some have "exec_from tableRegex t 0 = Some (idx, r)" by simp
    from exec_from_SomeD [OF this] have "tableRegex idx (drop idx t) = Some r" by simp
    from tableRegex_lineStart [OF this] assms show ?thesis by simp
  qed simp
  then have "tableLoop throws t 0 = (if 0 < length t then parseInlineContent throws t else [])"
    by (simp add: tableLoop.simps [of throws t 0])
  moreover have "parseInlineContent throws [] = []"
    by (simp add: no_inline_math parseMarkdown_Nil)
  ultimately show ?thesis
    by (cases t) simp_all
qed

lemma unmarked_content:
  assumes "\<not> hasMarker t"
  shows "parseContent throws t = tableLoop throws t 0"
proof -
  have "splitLoop t 0 0 = splitLoop t 0 (length t)"
  proof (rule splitLoop_skip)
    show "blockRegex (drop j t) = None" if "0 \<le> j" "j < length t" for j
    proof (cases "blockRegex (drop j t)")
      case (Some n)
      from hasMarker_drop [OF blockRegex_marker [OF Some]] assms show ?thesis by simp
    qed simp
  qed simp_all
  also have "\<dots> = [slice t 0 (length t)]" by (rule splitLoop_end) simp
  finally have "splitBlockMath t = [t]" by (simp add: splitBlockMath_def slice_def)
  moreover from assms have "\<not> startsWith t ''$$''" by (auto dest: hasMarker_startsWith)
  ultimately show ?thesis by (simp add: parseContent_def partElements_def)
qed

lemma hasMarker_appendI1: "hasMarker a \<Longrightarrow> hasMarker (a @ b)"
  by (induction a rule: hasMarker.induct) auto

lemma hasMarker_appendI2: "hasMarker b \<Longrightarrow> hasMarker (a @ b)"
  using hasMarker_drop [of "length a" "a @ b"] by simp

lemma exec_from_first:
  assumes "idx \<le> length t" "m idx (drop idx t) = Some r" "i \<le> idx"
    and "\<And>j. i \<le> j \<Longrightarrow> j < idx \<Longrightarrow> m j (drop j t) = None"
  shows "exec_from m t i = Some (idx, r)"
  using assms(3,4)
proof (induction "idx - i" arbitrary: i)
  case 0
  with assms(1,2) show ?case by (simp add: exec_from.simps [of m t i])
next
  case (Suc d)
  then have lt: "i < idx" by simp
  with Suc.prems(2) [of i] have none: "m i (drop i t) = None" by simp
  have "exec_from m t (Suc i) = Some (idx, r)"
  proof (rule Suc.hyps(1))
    show "d = idx - Suc i" using Suc.hyps(2) by simp
    show "Suc i \<le> idx" using lt by simp
    show "m j (drop j t) = None" if "Suc i \<le> j" "j < idx" for j
      using Suc.prems(2) [of j] that by simp
  qed
  with none lt assms(1) show ?case by (simp add: exec_from.simps [of m t i])
qed

lemma rowLen_none: "\<not> startsWith s ''|'' \<Longrightarrow> rowLen s = None"
  by (auto simp: rowLen_def startsWith_def Let_def split: list.splits)

lemma rowsLen_none: "\<not> startsWith s ''|'' \<Longrightarrow> rowsLen s = 0"
  by (simp add: rowsLen.simps [of s] rowLen_none)

lemma rowLen_open:
  assumes "pipeRow r"
  shows "rowLen r = Some (length r)"
proof -
  from pipeRowD [OF assms] obtain x0 x where r: "r = CHR ''|'' # x0 # x @ ''|''"
    and nl: "CHR 0x0A \<notin> set (x0 # x)" by auto
  from nl have tw: "takeWhile notNewline (x @ ''|'') = x @ ''|''"
    by (auto simp: notNewline_def takeWhile_eq_all_conv)
  from nl have "notNewline x0" by (auto simp: notNewline_def)
  with tw show ?thesis
    unfolding r by (simp add: rowLen_def uptoLastPipe_ends Let_def startsWith_def)
qed

lemma rowsLen_open: "pipeRow r \<Longrightarrow> rowsLen r = length r"
  using rowLen_open [of r] by (simp add: rowsLen.simps [of r] rowsLen_Nil)

lemma rowsLen_rows_tail:
  "list_all pipeRow rows \<Longrightarrow>
     rowsLen (concat (map (\<lambda>r. r @ [CHR 0x0A]) rows) @ tail)
       = length (concat (map (\<lambda>r. r @ [CHR 0x0A]) rows)) + rowsLen tail"
proof (induction rows)
  case Nil
  then show ?case by simp
next
  case (Cons r rows)
  let ?rest = "concat (map (\<lambda>r. r @ [CHR 0x0A]) rows) @ tail"
  from Cons.prems have r: "pipeRow r" and rows: "list_all pipeRow rows" by simp_all
  have "rowsLen (r @ CHR 0x0A # ?rest) = (length r + 1) + rowsLen (drop (length r + 1) (r @ CHR 0x0A # ?rest))"
    using rowLen_row [OF r, of ?rest] by (subst rowsLen.simps) simp
  also have "drop (length r + 1) (r @ CHR 0x0A # ?rest) = ?rest" by simp
  finally show ?case using Cons.IH [OF rows] by simp
qed

lemma tableBody_text:
  assumes "pipeRow h" "pipeRow sp" "list_all sepClass sp" "list_all pipeRow rows"
  shows "tableBody (concat (map (\<lambda>l. l @ [CHR 0x0A]) (h # sp # rows)) @ tail)
    = Some (length (concat (map (\<lambda>l. l @ [CHR 0x0A]) (h # sp # rows))) + rowsLen tail)"
proof -
  let ?R = "concat (map (\<lambda>r. r @ [CHR 0x0A]) rows)"
  let ?T = "concat (map (\<lambda>l. l @ [CHR 0x0A]) (h # sp # rows)) @ tail"
  have T: "?T = h @ CHR 0x0A # (sp @ CHR 0x0A # ?R @ tail)" by simp
  have a: "pipeLine notNewline ?T = Some (length h + 1)"
    unfolding T by (rule pipeLine_header [OF assms(1)])
  have "drop (length h + 1) ?T = sp @ CHR 0x0A # ?R @ tail" by simp
  with pipeLine_separator [OF assms(2,3), of "?R @ tail"]
  have b: "pipeLine sepClass (drop (length h + 1) ?T) = Some (length sp + 1)" by simp
  have "drop (length h + 1 + (length sp + 1)) ?T = ?R @ tail" by simp
  with rowsLen_rows_tail [OF assms(4), of tail]
  have c: "rowsLen (drop (length h + 1 + (length sp + 1)) ?T) = length ?R + rowsLen tail" by simp
  have "tableBody ?T = Some (length h + 1 + (length sp + 1) + (length ?R + rowsLen tail))"
    unfolding tableBody_def by (simp only: a b c option.case)
  moreover have "length h + 1 + (length sp + 1) + (length ?R + rowsLen tail)
      = length (concat (map (\<lambda>l. l @ [CHR 0x0A]) (h # sp # rows))) + rowsLen tail" by simp
  ultimately show ?thesis by (simp only:)
qed

lemma tableRegex_shift:
  assumes "\<not> startsWith a ''|''"
  shows "tableRegex (k + j) (drop j a) = tableRegex j (drop j a)"
proof (cases "j = 0")
  case True
  have "tableBody a = None"
  proof (cases "tableBody a")
    case (Some n)
    from tableBody_start [OF Some] assms show ?thesis by simp
  qed simp
  with True show ?thesis by (simp add: tableRegex_def)
next
  case False
  then show ?thesis by (simp add: tableRegex_def)
qed

lemma exec_shift:
  assumes "\<not> startsWith a ''|''"
  shows "exec_from tableRegex (d @ a) (length d + j)
    = map_option (\<lambda>(idx, n). (length d + idx, n)) (exec_from tableRegex a j)"
proof (induction "Suc (length a) - j" arbitrary: j)
  case 0
  then have "length a < j" by simp
  then show ?case
    by (simp add: exec_from.simps [of tableRegex a j] exec_from.simps [of tableRegex "d @ a" "length d + j"])
next
  case (Suc n)
  then have le: "\<not> length a < j" by simp
  have dr: "drop (length d + j) (d @ a) = drop j a" by simp
  show ?case
  proof (cases "tableRegex j (drop j a)")
    case None
    with tableRegex_shift [OF assms, of "length d" j]
    have "tableRegex (length d + j) (drop (length d + j) (d @ a)) = None" by (simp only: dr)
    with le have "exec_from tableRegex (d @ a) (length d + j) = exec_from tableRegex (d @ a) (length d + Suc j)"
      by (simp add: exec_from.simps [of tableRegex "d @ a" "length d + j"])
    also have "\<dots> = map_option (\<lambda>(idx, n). (length d + idx, n)) (exec_from tableRegex a (Suc j))"
      by (rule Suc.hyps(1)) (use Suc.hyps(2) in simp)
    also have "exec_from tableRegex a (Suc j) = exec_from tableRegex a j"
      using None le by (simp add: exec_from.simps [of tableRegex a j])
    finally show ?thesis .
  next
    case (Some r)
    with tableRegex_shift [OF assms, of "length d" j]
    have "tableRegex (length d + j) (drop (length d + j) (d @ a)) = Some r" by (simp only: dr)
    with le Some show ?thesis
      by (simp add: exec_from.simps [of tableRegex "d @ a" "length d + j"] exec_from.simps [of tableRegex a j])
  qed
qed

lemma slice_shift: "slice (d @ a) (length d + i) (length d + j) = slice a i j"
  by (simp add: slice_def)

lemma tableLoop_shift:
  "\<not> startsWith a ''|'' \<Longrightarrow> tableLoop throws (d @ a) (length d + j) = tableLoop throws a j"
proof (induction throws a j rule: tableLoop.induct)
  case (1 throws a j)
  note sh = exec_shift [OF "1.prems", of d j]
  show ?case
  proof (cases "exec_from tableRegex a j")
    case None
    with sh have "exec_from tableRegex (d @ a) (length d + j) = None" by simp
    with None show ?thesis
      by (simp add: tableLoop.simps [of throws a j] tableLoop.simps [of throws "d @ a" "length d + j"])
  next
    case (Some x)
    obtain idx n where x: "x = (idx, n)" by (cases x)
    with Some sh have e: "exec_from tableRegex (d @ a) (length d + j) = Some (length d + idx, n)"
      by simp
    have ih: "tableLoop throws (d @ a) (length d + (idx + n)) = tableLoop throws a (idx + n)"
      by (rule "1.IH" [OF Some x [symmetric] "1.prems"])
    have s1: "slice (d @ a) (length d + j) (length d + idx) = slice a j idx" by (rule slice_shift)
    have s2: "slice (d @ a) (length d + idx) (length d + idx + n) = slice a idx (idx + n)"
      using slice_shift [of d a idx "idx + n"] by (simp add: add.assoc)
    have s2': "slice (d @ a) (length d + idx) (length d + (idx + n)) = slice a idx (idx + n)"
      by (rule slice_shift)
    have "tableLoop throws (d @ a) (length d + j) =
        (if length d + j < length d + idx then parseInlineContent throws (slice (d @ a) (length d + j) (length d + idx)) else [])
        @ (let m = slice (d @ a) (length d + idx) (length d + idx + n)
           in if isMarkdownTable m then [renderMarkdownTable m] else parseInlineContent throws m)
        @ tableLoop throws (d @ a) (length d + idx + n)"
      using e by (subst tableLoop.simps) simp
    also have "\<dots> = (if j < idx then parseInlineContent throws (slice a j idx) else [])
        @ (let m = slice a idx (idx + n)
           in if isMarkdownTable m then [renderMarkdownTable m] else parseInlineContent throws m)
        @ tableLoop throws a (idx + n)"
      using ih s2' by (simp only: s1 add.assoc nat_add_left_cancel_less)
    also have "\<dots> = tableLoop throws a j"
      using Some x by (subst (2) tableLoop.simps) simp
    finally show ?thesis .
  qed
qed

lemma joined_shape:
  assumes "pipeRow h" "list_all pipeRow ls" "ls \<noteq> []"
  shows "\<exists>x. h @ concat (map ((#) (CHR 0x0A)) ls) = CHR ''|'' # x @ ''|''"
proof -
  let ?B = "h @ concat (map ((#) (CHR 0x0A)) ls)"
  from pipeRowD [OF assms(1)] obtain x0 x where h: "h = CHR ''|'' # x0 # x @ ''|''" by blast
  from assms(3) have ne: "concat (map ((#) (CHR 0x0A)) ls) \<noteq> []" by (cases ls) simp_all
  with last_joined [OF assms(2,3), of "CHR 0x0A"] have la: "last ?B = CHR ''|''" by simp
  have Bne: "?B \<noteq> []" using ne by simp
  have "?B = butlast ?B @ [last ?B]" by (rule append_butlast_last_id [OF Bne, symmetric])
  with la have "?B = butlast ?B @ ''|''" by (simp only:)
  moreover have "butlast ?B = CHR ''|'' # butlast (tl ?B)" using ne by (simp add: h butlast_append)
  ultimately have "?B = CHR ''|'' # butlast (tl ?B) @ ''|''" by (simp only: append_Cons)
  then show ?thesis by blast
qed

lemma trim_between:
  assumes "b = CHR ''|'' # x @ ''|''" "\<forall>c\<in>set a. isSpace c" "\<forall>c\<in>set e. isSpace c"
  shows "trim (a @ b @ e) = b"
proof -
  from assms(1,2) have "dropWhile isSpace (a @ b @ e) = b @ e"
    by (simp add: dropWhile_append)
  moreover from assms(1,3) have "dropWhile isSpace (rev e @ rev b) = rev b"
    by (simp add: dropWhile_append)
  ultimately show ?thesis by (simp add: trim_def)
qed

lemma lines_shift_open:
  "concat (map (\<lambda>l. l @ [d]) (l0 # ls)) @ r = l0 @ concat (map ((#) d) (ls @ [r]))"
  by (induction ls arbitrary: l0) simp_all

lemma render_joined:
  assumes "trim m = h @ concat (map ((#) (CHR 0x0A)) (sp # rs))"
    and "pipeRow h" "pipeRow sp" "separatorTest sp" "list_all pipeRow rs"
  shows "isMarkdownTable m" "renderMarkdownTable m = Table (parseCells h) (map parseCells rs)"
proof -
  from assms have all: "list_all pipeRow (sp # rs)" by simp
  have "split_char (CHR 0x0A) (h @ concat (map ((#) (CHR 0x0A)) (sp # rs))) = h # sp # rs"
    using assms(2) all by (intro split_char_joined) (auto simp: list_all_iff pipeRow_no_newline)
  with assms(1) have sp: "split_char (CHR 0x0A) (trim m) = h # sp # rs" by simp
  from assms(2,4) show "isMarkdownTable m"
    unfolding isMarkdownTable_def sp by (simp add: pipeRow_has_pipe)
  have "filter (\<lambda>l. trim l \<noteq> []) (h # sp # rs) = h # sp # rs"
    using assms(2) all by (auto simp: list_all_iff pipeRow_nonblank filter_id_conv)
  then show "renderMarkdownTable m = Table (parseCells h) (map parseCells rs)"
    unfolding renderMarkdownTable_def sp by simp
qed

lemma startsWith_inside:
  "j + length p \<le> length u \<Longrightarrow> startsWith (drop j (u @ v)) p = startsWith (drop j u) p"
  by (simp add: startsWith_def)

lemma table_found:
  assumes "pipeRow h" "pipeRow sp" "list_all sepClass sp" "list_all pipeRow rows"
    and "lead = [] \<or> lead = [CHR 0x0A]" "lead = [] \<longrightarrow> before = []"
    and "\<not> pipeAtLineStart (before @ lead)"
    and "tbl = concat (map (\<lambda>l. l @ [CHR 0x0A]) (h # sp # rows))"
  shows "exec_from tableRegex (before @ lead @ tbl @ tail) 0
    = Some (length before, length lead + length tbl + rowsLen tail)"
proof (rule exec_from_first)
  let ?T = "before @ lead @ tbl @ tail"
  show "length before \<le> length ?T" by simp
  show "0 \<le> length before" by simp
  have body: "tableBody (tbl @ tail) = Some (length tbl + rowsLen tail)"
    unfolding assms(8) by (rule tableBody_text [OF assms(1-4)])
  show "tableRegex (length before) (drop (length before) ?T)
      = Some (length lead + length tbl + rowsLen tail)"
  proof (cases "lead = []")
    case True
    with assms(6) body show ?thesis by (simp add: tableRegex_def)
  next
    case False
    with assms(5) have l: "lead = [CHR 0x0A]" by simp
    have "tableBody (CHR 0x0A # tbl @ tail) = None"
    proof (cases "tableBody (CHR 0x0A # tbl @ tail)")
      case (Some n)
      from tableBody_start [OF Some] show ?thesis by (simp add: startsWith_def)
    qed simp
    with body l show ?thesis by (simp add: tableRegex_def)
  qed
  show "tableRegex j (drop j ?T) = None" if "0 \<le> j" "j < length before" for j
  proof (cases "tableRegex j (drop j ?T)")
    case (Some n)
    from that(2) assms(6) have l: "lead = [CHR 0x0A]" using assms(5) by auto
    let ?pre = "before @ lead"
    from that(2) l have len: "j + 2 \<le> length ?pre" by simp
    have T: "?T = ?pre @ tbl @ tail" by simp
    from tableRegex_start [OF Some] have "pipeAtLineStart ?pre"
    proof
      assume "j = 0 \<and> startsWith (drop j ?T) ''|''"
      with that(2) have "startsWith ?pre ''|''" by (cases before) (auto simp: startsWith_def)
      then show ?thesis by (simp add: pipeAtLineStart_def)
    next
      assume s: "startsWith (drop j ?T) [CHR 0x0A, CHR ''|'']"
      from len have "j + length [CHR 0x0A, CHR ''|''] \<le> length ?pre" by simp
      from startsWith_inside [OF this, of "tbl @ tail"] s
      have "startsWith (drop j ?pre) [CHR 0x0A, CHR ''|'']" by (simp only: T)
      from pipeAfterNewline_drop [OF startsWith_pair [OF this]] show ?thesis
        by (simp add: pipeAtLineStart_def)
    qed
    with assms(7) show ?thesis by simp
  qed simp
qed

lemma parseInlineContent_Nil: "parseInlineContent throws [] = []"
  by (simp add: no_inline_math parseMarkdown_Nil)

lemma table_in_text:
  assumes "pipeRow h" "pipeRow sp" "list_all sepClass sp" "separatorTest sp" "list_all pipeRow rows"
    and "lead = [] \<or> lead = [CHR 0x0A]" "lead = [] \<longrightarrow> before = []"
    and "\<not> pipeAtLineStart (before @ lead)"
    and "tbl = concat (map (\<lambda>l. l @ [CHR 0x0A]) (h # sp # rows))"
    and "trim (lead @ tbl @ take (rowsLen tail) tail) = h @ concat (map ((#) (CHR 0x0A)) (sp # rs))"
    and "list_all pipeRow rs"
  shows "tableLoop throws (before @ lead @ tbl @ tail) 0
    = parseInlineContent throws before @ [Table (parseCells h) (map parseCells rs)]
      @ tableLoop throws (before @ lead @ tbl @ tail) (length before + (length lead + length tbl + rowsLen tail))"
proof -
  let ?T = "before @ lead @ tbl @ tail"
  let ?n = "length lead + length tbl + rowsLen tail"
  let ?m = "lead @ tbl @ take (rowsLen tail) tail"
  have e: "exec_from tableRegex ?T 0 = Some (length before, ?n)"
    by (rule table_found [OF assms(1,2,3,5,6,7,8,9)])
  have m: "slice ?T (length before) (length before + ?n) = ?m"
    by (simp add: slice_def)
  have b: "slice ?T 0 (length before) = before" by (simp add: slice_def)
  have pre: "(if 0 < length before then parseInlineContent throws before else [])
      = parseInlineContent throws before"
    by (cases before) (simp_all add: parseInlineContent_Nil)
  note r = render_joined [OF assms(10) assms(1,2,4,11)]
  have "tableLoop throws ?T 0 =
      (if 0 < length before then parseInlineContent throws (slice ?T 0 (length before)) else [])
      @ (let m = slice ?T (length before) (length before + ?n)
         in if isMarkdownTable m then [renderMarkdownTable m] else parseInlineContent throws m)
      @ tableLoop throws ?T (length before + ?n)"
    using e by (subst tableLoop.simps) simp
  also have "\<dots> = parseInlineContent throws before @ [Table (parseCells h) (map parseCells rs)]
      @ tableLoop throws ?T (length before + ?n)"
    by (simp only: m b pre Let_def r if_True)
  finally show ?thesis .
qed

lemma text_before_table:
  assumes "pre = [] \<or> last pre = CHR 0x0A"
  obtains lead where "pre = butlast pre @ lead" "lead = [] \<or> lead = [CHR 0x0A]"
    "lead = [] \<longrightarrow> butlast pre = []"
proof (cases "pre = []")
  case True
  then have "pre = butlast pre @ []" by simp
  with True that [of "[]"] show ?thesis by simp
next
  case False
  with assms have "pre = butlast pre @ [CHR 0x0A]" by (auto dest: append_butlast_last_id)
  with that [of "[CHR 0x0A]"] show ?thesis by simp
qed

lemma table_then_text:
  assumes "pipeRow h" "pipeRow sp" "list_all sepClass sp" "separatorTest sp" "list_all pipeRow rows"
    and "pre = [] \<or> last pre = CHR 0x0A" "\<not> pipeAtLineStart pre"
    and "\<not> startsWith post ''|''"
  shows "tableLoop throws (pre @ concat (map (\<lambda>l. l @ [CHR 0x0A]) (h # sp # rows)) @ post) 0
    = parseInlineContent throws (butlast pre) @ [Table (parseCells h) (map parseCells rows)]
      @ tableLoop throws post 0"
proof -
  let ?tbl = "concat (map (\<lambda>l. l @ [CHR 0x0A]) (h # sp # rows))"
  let ?before = "butlast pre"
  from text_before_table [OF assms(6)] obtain lead where pre: "pre = ?before @ lead"
    and l1: "lead = [] \<or> lead = [CHR 0x0A]" and l2: "lead = [] \<longrightarrow> ?before = []" by blast
  let ?T = "?before @ lead @ ?tbl @ post"
  have T: "pre @ ?tbl @ post = ?T" by (subst pre) simp
  from assms(7) pre have np: "\<not> pipeAtLineStart (?before @ lead)" by simp
  have rl: "rowsLen post = 0" by (rule rowsLen_none [OF assms(8)])
  from assms(2,5) have all: "list_all pipeRow (sp # rows)" by simp
  from joined_shape [OF assms(1) all] obtain x where
    B: "h @ concat (map ((#) (CHR 0x0A)) (sp # rows)) = CHR ''|'' # x @ ''|''" by auto
  have "trim (lead @ (h @ concat (map ((#) (CHR 0x0A)) (sp # rows))) @ [CHR 0x0A])
      = h @ concat (map ((#) (CHR 0x0A)) (sp # rows))"
    by (rule trim_between [OF B]) (use l1 in auto)
  then have tr: "trim (lead @ ?tbl @ take (rowsLen post) post) = h @ concat (map ((#) (CHR 0x0A)) (sp # rows))"
    by (simp only: rl take_0 append_Nil2 lines_shift)
  have "tableLoop throws ?T 0 = parseInlineContent throws ?before @ [Table (parseCells h) (map parseCells rows)]
      @ tableLoop throws ?T (length ?before + (length lead + length ?tbl + rowsLen post))"
    by (rule table_in_text [OF assms(1-5) l1 l2 np refl tr assms(5)])
  also have "tableLoop throws ?T (length ?before + (length lead + length ?tbl + rowsLen post))
      = tableLoop throws ((?before @ lead @ ?tbl) @ post) (length (?before @ lead @ ?tbl) + 0)"
    by (simp add: rl add.assoc)
  also have "\<dots> = tableLoop throws post 0" by (rule tableLoop_shift [OF assms(8)])
  finally show ?thesis by (simp only: T)
qed

lemma table_ends_text:
  assumes "pipeRow h" "pipeRow sp" "list_all sepClass sp" "separatorTest sp" "list_all pipeRow rows"
    and "pre = [] \<or> last pre = CHR 0x0A" "\<not> pipeAtLineStart pre"
    and "pipeRow r"
  shows "tableLoop throws (pre @ concat (map (\<lambda>l. l @ [CHR 0x0A]) (h # sp # rows)) @ r) 0
    = parseInlineContent throws (butlast pre) @ [Table (parseCells h) (map parseCells (rows @ [r]))]"
proof -
  let ?tbl = "concat (map (\<lambda>l. l @ [CHR 0x0A]) (h # sp # rows))"
  let ?before = "butlast pre"
  from text_before_table [OF assms(6)] obtain lead where pre: "pre = ?before @ lead"
    and l1: "lead = [] \<or> lead = [CHR 0x0A]" and l2: "lead = [] \<longrightarrow> ?before = []" by blast
  let ?T = "?before @ lead @ ?tbl @ r"
  have T: "pre @ ?tbl @ r = ?T" by (subst pre) simp
  from assms(7) pre have np: "\<not> pipeAtLineStart (?before @ lead)" by simp
  have rl: "rowsLen r = length r" by (rule rowsLen_open [OF assms(8)])
  from assms(2,5,8) have all: "list_all pipeRow (sp # rows @ [r])" by simp
  from assms(5,8) have rs: "list_all pipeRow (rows @ [r])" by simp
  from joined_shape [OF assms(1) all] obtain x where
    B: "h @ concat (map ((#) (CHR 0x0A)) (sp # rows @ [r])) = CHR ''|'' # x @ ''|''" by auto
  have "trim (lead @ (h @ concat (map ((#) (CHR 0x0A)) (sp # rows @ [r]))) @ [])
      = h @ concat (map ((#) (CHR 0x0A)) (sp # rows @ [r]))"
    by (rule trim_between [OF B]) (use l1 in auto)
  moreover have "?tbl @ r = h @ concat (map ((#) (CHR 0x0A)) ((sp # rows) @ [r]))"
    by (rule lines_shift_open)
  ultimately have tr: "trim (lead @ ?tbl @ take (rowsLen r) r)
      = h @ concat (map ((#) (CHR 0x0A)) (sp # rows @ [r]))"
    by (simp add: rl)
  have "tableLoop throws ?T 0 = parseInlineContent throws ?before @ [Table (parseCells h) (map parseCells (rows @ [r]))]
      @ tableLoop throws ?T (length ?before + (length lead + length ?tbl + rowsLen r))"
    by (rule table_in_text [OF assms(1-5) l1 l2 np refl tr rs])
  also have "tableLoop throws ?T (length ?before + (length lead + length ?tbl + rowsLen r))
      = tableLoop throws ?T (length ?T)"
    by (simp add: rl add.assoc)
  also have "\<dots> = []" by (rule tableLoop_end)
  finally show ?thesis by (simp only: T append_Nil2)
qed

lemma text_before_content:
  assumes "\<not> pipeAtLineStart pre" "\<not> hasMarker (pre @ rest)"
  shows "parseInlineContent throws (butlast pre) = parseContent throws (butlast pre)"
proof -
  have "\<not> hasMarker pre" using assms(2) hasMarker_appendI1 [of pre rest] by blast
  then have "\<not> hasMarker (butlast pre)"
    using hasMarker_appendI1 [of "butlast pre" "[last pre]"] by (cases "pre = []") auto
  from unmarked_content [OF this, of throws]
    no_table_lines [OF pipeAtLineStart_butlast [OF assms(1)], of throws]
  show ?thesis by simp
qed


section \<open>Claims about the inline emphasis resolver\<close>

text \<open>
  C1. On every line only the first pattern of \<^verbatim>\<open>patterns\<close> (bold, italic, inline code,
  link) that matches anywhere in the line is applied: every node of the result is
  built by that pattern or is plain text in which that pattern matches nowhere (so
  every occurrence is converted), and the nodes put back between their delimiters
  give the line again. The line \<^verbatim>\<open>**bold and text**\<close> is one \<open>Bold\<close> node. On the line
  \<^verbatim>\<open>**bold *and* text**\<close> the bold pattern, whose content has no asterisk, matches
  nowhere; italic is the first pattern that matches, and it gives two \<open>Italic\<close> nodes.
\<close>

theorem first_matching_class_wins:
  assumes "find (\<lambda>p. test p line) patterns = Some p"
  shows "list_all (resolvedBy p) (parseInlineMarkdown line)
    \<and> concat (map sourceText (parseInlineMarkdown line)) = line
    \<and> parseInlineMarkdown ''**bold and text**'' = [Bold ''bold and text'']
    \<and> find (\<lambda>p. test p ''**bold *and* text**'') patterns = Some PItalic
    \<and> parseInlineMarkdown ''**bold *and* text**'' =
         [PlainText ''*'', Italic ''bold '', PlainText ''and'', Italic '' text'', PlainText ''*'']"
proof -
  have "list_all (resolvedBy p) (parseInlineMarkdown line)"
    using assms by (simp add: parseInlineMarkdown_Some resolved_all)
  moreover have "concat (map sourceText (parseInlineMarkdown line)) = line"
    by (rule parseInlineMarkdown_source)
  moreover have "parseInlineMarkdown ''**bold and text**'' = [Bold ''bold and text'']"
    by code_simp
  moreover have "find (\<lambda>p. test p ''**bold *and* text**'') patterns = Some PItalic"
    by code_simp
  moreover have "parseInlineMarkdown ''**bold *and* text**'' =
         [PlainText ''*'', Italic ''bold '', PlainText ''and'', Italic '' text'', PlainText ''*'']"
    by code_simp
  ultimately show ?thesis by blast
qed

text \<open>The theorem at a line where inline code, bold and italic all occur: bold is
  first in the order, and the other two stay as they are written.\<close>

theorem first_matching_class_wins_witness:
  "find (\<lambda>p. test p ''a `b` and **c** *d*'') patterns = Some PBold
   \<and> list_all (resolvedBy PBold) (parseInlineMarkdown ''a `b` and **c** *d*'')
   \<and> parseInlineMarkdown ''a `b` and **c** *d*'' =
        [PlainText ''a `b` and '', Bold ''c'', PlainText '' *d*'']"
proof -
  have h: "find (\<lambda>p. test p ''a `b` and **c** *d*'') patterns = Some PBold"
    by code_simp
  have v: "parseInlineMarkdown ''a `b` and **c** *d*'' =
      [PlainText ''a `b` and '', Bold ''c'', PlainText '' *d*'']"
    by code_simp
  from first_matching_class_wins [OF h] h v show ?thesis by blast
qed

text \<open>The line \<^verbatim>\<open>**bold *and* text**\<close> is not a single \<open>Bold\<close> node.\<close>

theorem bold_around_italic_counterexample:
  "parseInlineMarkdown ''**bold *and* text**'' \<noteq> [Bold ''bold *and* text'']"
  by code_simp

text \<open>
  C9. In every result of the inline emphasis resolver, the content of a \<open>Bold\<close> or
  \<open>Italic\<close> node has no asterisk, the content of an \<open>InlineCode\<close> node has no backtick,
  the text of a \<open>Link\<close> node has no \<^verbatim>\<open>]\<close> and its address has no \<^verbatim>\<open>)\<close>.
\<close>

theorem delimiters_excluded: "list_all delimiterFree (parseInlineMarkdown line)"
  by (rule parseInlineMarkdown_free)

section \<open>Claims about the lines, the list items and the whole parser\<close>

text \<open>Building a math element never throws: the element is only typeset when it is
  displayed. The concrete inputs below are run with this parameter.\<close>

definition noThrow :: "string \<Rightarrow> bool" where
  "noThrow formula = False"


text \<open>
  C4. For every text that is not empty, has none of the characters dollar, asterisk,
  backtick, left bracket and pipe, has no line feed and is not a list line, the result
  of the parser is the one node \<open>PlainText\<close> of that text.
\<close>

theorem plain_text_single_node:
  assumes "t \<noteq> []"
    and "CHR ''$'' \<notin> set t" "CHR ''*'' \<notin> set t" "CHR 0x60 \<notin> set t"
      "CHR ''['' \<notin> set t" "CHR ''|'' \<notin> set t"
    and "CHR 0x0A \<notin> set t"
    and "\<not> bulletMatch t" "numberedMatch t = None"
  shows "parseContent throws t = [PlainText t]"
proof -
  from assms have "parseContent throws t = lineElements t 0"
    by (simp add: no_dollar_no_pipe parseMarkdown_line)
  also from assms have "\<dots> = [PlainText t]"
    by (simp add: lineElements_def no_emphasis)
  finally show ?thesis .
qed

text \<open>The theorem at a sentence with a hyphen, digits and a full stop inside.\<close>

theorem plain_text_single_node_witness:
  "parseContent noThrow ''Hello, world: 3 - 2 = 1.'' = [PlainText ''Hello, world: 3 - 2 = 1.'']"
  by (rule plain_text_single_node) (simp_all add: bulletMatch_def numberedMatch_def isDigit_def)

text \<open>Texts without any of the five characters that do not give one \<open>PlainText\<close> node:
  two lines, a list line and the empty text.\<close>

theorem plain_text_counterexample:
  "parseContent noThrow ''a\<newline>b'' = [PlainText ''a'', LineBreak, PlainText ''b'']
   \<and> parseContent noThrow ''- a'' = [ListItem BulletGlyph [PlainText ''a'']]
   \<and> parseContent noThrow [] = []"
  by code_simp

text \<open>
  C6. For every text run that is not empty, with lines \<open>l # ls\<close>, the result is the
  elements of \<open>l\<close> followed, for each line of \<open>ls\<close>, by one \<open>LineBreak\<close> and the
  elements of that line; no line's own elements hold a \<open>LineBreak\<close>, so the result
  has as many as there are lines after the first, and none follows the last line. The
  text \<^verbatim>\<open>- one\<close>, line feed, \<^verbatim>\<open>- two\<close> gives two bullet items with one \<open>LineBreak\<close> between them.
\<close>

theorem line_breaks_between_lines:
  assumes "t \<noteq> []"
  shows "(\<exists>l ls. split_char (CHR 0x0A) t = l # ls
      \<and> parseMarkdown t = lineElements l 0 @ concat (map (\<lambda>x. LineBreak # lineElements x 0) ls)
      \<and> LineBreak \<notin> set (lineElements l 0)
      \<and> list_all (\<lambda>x. LineBreak \<notin> set (lineElements x 0)) ls
      \<and> count_list (parseMarkdown t) LineBreak = length ls)
    \<and> parseMarkdown ''- one\<newline>- two'' =
        [ListItem BulletGlyph [PlainText ''one''], LineBreak, ListItem BulletGlyph [PlainText ''two'']]"
proof -
  have "parseMarkdown ''- one\<newline>- two'' =
        [ListItem BulletGlyph [PlainText ''one''], LineBreak, ListItem BulletGlyph [PlainText ''two'']]"
    by code_simp
  with one_break_between_lines [OF assms] show ?thesis by blast
qed

text \<open>The theorem at a text of three lines, the last one empty.\<close>

theorem line_breaks_between_lines_witness:
  "''a\<newline>b\<newline>'' \<noteq> []
   \<and> split_char (CHR 0x0A) ''a\<newline>b\<newline>'' = [''a'', ''b'', []]
   \<and> count_list (parseMarkdown ''a\<newline>b\<newline>'') LineBreak = 2
   \<and> parseMarkdown ''a\<newline>b\<newline>'' = [PlainText ''a'', LineBreak, PlainText ''b'', LineBreak]"
proof -
  have h: "''a\<newline>b\<newline>'' \<noteq> []" by simp
  have sp: "split_char (CHR 0x0A) ''a\<newline>b\<newline>'' = [''a'', ''b'', []]" by code_simp
  have v: "parseMarkdown ''a\<newline>b\<newline>'' = [PlainText ''a'', LineBreak, PlainText ''b'', LineBreak]"
    by code_simp
  from line_breaks_between_lines [OF h] sp
  have "count_list (parseMarkdown ''a\<newline>b\<newline>'') LineBreak = 2" by auto
  with h sp v show ?thesis by blast
qed

text \<open>
  C7. A line that starts with \<^verbatim>\<open>-\<close> or \<^verbatim>\<open>*\<close> and white space is a \<open>ListItem\<close> whose label
  is the fixed bullet glyph, whichever of the two characters the line has; a line that
  starts with digits, a full stop and white space is a \<open>ListItem\<close> whose label is
  those digits as written. The children are the resolved rest of the line after the
  white space.
\<close>

theorem list_item_labels:
  assumes "isSpace w" "CHR 0x0A \<notin> set (w # rest)"
  shows "(b = CHR ''-'' \<or> b = CHR ''*'' \<longrightarrow>
      parseMarkdown (b # w # rest) =
        [ListItem BulletGlyph (parseInlineMarkdown (dropWhile isSpace (w # rest)))])
    \<and> (ds \<noteq> [] \<and> (\<forall>c\<in>set ds. isDigit c) \<longrightarrow>
      parseMarkdown (ds @ CHR ''.'' # w # rest) =
        [ListItem (Numeral ds) (parseInlineMarkdown (dropWhile isSpace (w # rest)))])"
  using bullet_line [OF _ assms] numbered_line [OF _ _ assms] by blast

text \<open>The theorem at a bullet line and at a numbered line with leading zeros.\<close>

theorem list_item_labels_witness:
  "parseMarkdown ''-  x'' = [ListItem BulletGlyph [PlainText ''x'']]
   \<and> parseMarkdown ''007. x'' = [ListItem (Numeral ''007'') [PlainText ''x'']]"
proof -
  have a: "isSpace (CHR '' '')" by (simp add: isSpace_def)
  have b: "CHR 0x0A \<notin> set '' x''" by simp
  have c: "CHR 0x0A \<notin> set ''x''" by simp
  have d: "\<forall>c\<in>set ''007''. isDigit c" by (simp add: isDigit_def)
  have e: "parseInlineMarkdown (dropWhile isSpace '' x'') = [PlainText ''x'']" by code_simp
  have f: "parseInlineMarkdown (dropWhile isSpace ''  x'') = [PlainText ''x'']" by code_simp
  from list_item_labels [of "CHR '' ''" "'' x''" "CHR ''-''" "[]"] a b f
  have "parseMarkdown ''-  x'' = [ListItem BulletGlyph [PlainText ''x'']]" by simp
  moreover from list_item_labels [of "CHR '' ''" "''x''" "CHR ''-''" "''007''"] a c d e
  have "parseMarkdown ''007. x'' = [ListItem (Numeral ''007'') [PlainText ''x'']]" by simp
  ultimately show ?thesis by blast
qed

text \<open>The label of a bullet line is not the character captured from the line: \<^verbatim>\<open>-\<close>
  and \<^verbatim>\<open>*\<close> give the same label.\<close>

theorem bullet_label_counterexample:
  "parseMarkdown ''- x'' = [ListItem BulletGlyph [PlainText ''x'']]
   \<and> parseMarkdown ''* x'' = [ListItem BulletGlyph [PlainText ''x'']]"
  by code_simp

text \<open>
  C3. A part that is exactly \<^verbatim>\<open>$$\<close> or \<^verbatim>\<open>$$$\<close> has no closing marker, and the splitting
  expression does not match it; the test \<^verbatim>\<open>startsWith("$$") && endsWith("$$")\<close> holds
  for it all the same, and it becomes a \<open>BlockMath\<close> node with an empty formula. An
  opening marker followed by other text stays plain.
\<close>

theorem lone_marker_is_block_math:
  "parseContent noThrow ''$$'' = [BlockMath []]
   \<and> parseContent noThrow ''$$$'' = [BlockMath []]
   \<and> parseContent noThrow ''$$a$$$$'' = [BlockMath ''a'', BlockMath []]
   \<and> parseContent noThrow ''$$unterminated'' = [PlainText ''$$unterminated'']"
  by code_simp

text \<open>
  C10. A text made of plain content \<open>p0\<close> and then regions \<^verbatim>\<open>$$m$$\<close>, each followed
  by plain content \<open>p\<close>, where no \<open>m\<close> and no \<open>p\<close> has two dollars in a row or ends
  with a dollar (the markers are the only places where two dollars meet): each
  marker pairs with the nearest following one, every \<open>m\<close> becomes a block-math
  element of the trimmed \<open>m\<close> (the red code element where building it throws) and
  every \<open>p\<close> is parsed as plain content on its own. \<^verbatim>\<open>$$a$$b$$c$$\<close> gives \<open>BlockMath a\<close>,
  plain \<open>b\<close>, \<open>BlockMath c\<close>.
\<close>

theorem block_math_pairing:
  assumes "gapText p0" "\<forall>(m, p)\<in>set mps. gapText m \<and> gapText p"
  shows "parseContent throws (p0 @ concat (map (\<lambda>(m, p). ''$$'' @ m @ ''$$'' @ p) mps)) =
      parseContent throws p0 @
      concat (map (\<lambda>(m, p). (if throws (trim m) then ErrorCode (''$$'' @ m @ ''$$'') else BlockMath (trim m))
         # parseContent throws p) mps)
    \<and> parseContent noThrow ''$$a$$b$$c$$'' = [BlockMath ''a'', PlainText ''b'', BlockMath ''c'']"
proof -
  have "parseContent noThrow ''$$a$$b$$c$$'' = [BlockMath ''a'', PlainText ''b'', BlockMath ''c'']"
    by code_simp
  with block_math_split [OF assms] show ?thesis by blast
qed

text \<open>The theorem at a text with plain content before two regions and inline math
  between them.\<close>

theorem block_math_pairing_witness:
  "parseContent noThrow (''x '' @ ''$$'' @ '' a '' @ ''$$'' @ '' and $b$ '' @ ''$$'' @ ''c'' @ ''$$'' @ [])
     = [PlainText ''x '', BlockMath ''a'', PlainText '' and '', InlineMath ''b'', PlainText '' '',
        BlockMath ''c'']"
proof -
  have a: "gapText ''x ''" by code_simp
  have b: "\<forall>(m, p)\<in>set [('' a '', '' and $b$ ''), (''c'', [])]. gapText m \<and> gapText p"
    by code_simp
  have c: "parseContent noThrow ''x '' = [PlainText ''x '']" by code_simp
  have d: "parseContent noThrow '' and $b$ '' = [PlainText '' and '', InlineMath ''b'', PlainText '' '']"
    by code_simp
  have e: "parseContent noThrow [] = []" by code_simp
  have f: "trim '' a '' = ''a''" "trim ''c'' = ''c''" by code_simp+
  from block_math_pairing [OF a b, of noThrow] c d e f
  show ?thesis by (simp add: noThrow_def)
qed




section \<open>Claims about tables and about every input\<close>

text \<open>
  C2. Take a header line, a separator line and further lines, each ended by a line
  feed, where every line starts and ends with a pipe with one character or more
  between and has no line feed, and the separator line has only pipes, dashes, colons
  and spaces and passes the test of \<^verbatim>\<open>isMarkdownTable\<close>; before them a text \<open>pre\<close> that is
  empty or ends with a line feed and has no pipe at the start of a line. Then the
  scan of a part for tables gives the inline content of \<open>pre\<close> without its last line
  feed, the \<open>Table\<close> of the header line's cells with one row of cells for each further
  line, and the scan of the text \<open>post\<close> after the lines when \<open>post\<close> does not start with a
  pipe; a last line \<open>r\<close> of the same shape without line feed at the end of the text is
  one more row. A text without two dollars in a row is one part, so the parser's
  result for it is the result for the text before, the \<open>Table\<close>, and the result for the
  text after.
\<close>

theorem pipe_table_extracted:
  assumes "pipeRow h" and "pipeRow sp" and "list_all sepClass sp" and "separatorTest sp"
    and "list_all pipeRow rows"
    and "pre = [] \<or> last pre = CHR 0x0A" and "\<not> pipeAtLineStart pre"
    and "tbl = concat (map (\<lambda>l. l @ [CHR 0x0A]) (h # sp # rows))"
  shows "(\<not> startsWith post ''|'' \<longrightarrow>
            tableLoop throws (pre @ tbl @ post) 0
              = parseInlineContent throws (butlast pre)
                @ [Table (parseCells h) (map parseCells rows)] @ tableLoop throws post 0)
    \<and> (pipeRow r \<longrightarrow>
            tableLoop throws (pre @ tbl @ r) 0
              = parseInlineContent throws (butlast pre)
                @ [Table (parseCells h) (map parseCells (rows @ [r]))])
    \<and> (\<not> startsWith post ''|'' \<and> \<not> hasMarker (pre @ tbl @ post) \<longrightarrow>
            parseContent throws (pre @ tbl @ post)
              = parseContent throws (butlast pre)
                @ [Table (parseCells h) (map parseCells rows)] @ parseContent throws post)
    \<and> (pipeRow r \<and> \<not> hasMarker (pre @ tbl @ r) \<longrightarrow>
            parseContent throws (pre @ tbl @ r)
              = parseContent throws (butlast pre)
                @ [Table (parseCells h) (map parseCells (rows @ [r]))])"
proof (intro conjI impI)
  assume "\<not> startsWith post ''|''"
  from table_then_text [OF assms(1-7) this] show "tableLoop throws (pre @ tbl @ post) 0
      = parseInlineContent throws (butlast pre)
        @ [Table (parseCells h) (map parseCells rows)] @ tableLoop throws post 0"
    by (simp only: assms(8))
next
  assume "pipeRow r"
  from table_ends_text [OF assms(1-7) this] show "tableLoop throws (pre @ tbl @ r) 0
      = parseInlineContent throws (butlast pre)
        @ [Table (parseCells h) (map parseCells (rows @ [r]))]"
    by (simp only: assms(8))
next
  assume a: "\<not> startsWith post ''|'' \<and> \<not> hasMarker (pre @ tbl @ post)"
  then have hm: "\<not> hasMarker (pre @ tbl @ post)" by simp
  then have "\<not> hasMarker ((pre @ tbl) @ post)" by simp
  then have hp: "\<not> hasMarker post" using hasMarker_appendI2 [of post "pre @ tbl"] by blast
  from a have ns: "\<not> startsWith post ''|''" by simp
  from table_then_text [OF assms(1-7) ns, of throws]
  have "tableLoop throws (pre @ tbl @ post) 0
      = parseInlineContent throws (butlast pre)
        @ [Table (parseCells h) (map parseCells rows)] @ tableLoop throws post 0"
    by (simp only: assms(8))
  then show "parseContent throws (pre @ tbl @ post)
      = parseContent throws (butlast pre)
        @ [Table (parseCells h) (map parseCells rows)] @ parseContent throws post"
    by (simp only: unmarked_content [OF hm] unmarked_content [OF hp]
        text_before_content [OF assms(7) hm])
next
  assume a: "pipeRow r \<and> \<not> hasMarker (pre @ tbl @ r)"
  then have hm: "\<not> hasMarker (pre @ tbl @ r)" by simp
  from a have pr: "pipeRow r" by simp
  from table_ends_text [OF assms(1-7) pr, of throws]
  have "tableLoop throws (pre @ tbl @ r) 0
      = parseInlineContent throws (butlast pre)
        @ [Table (parseCells h) (map parseCells (rows @ [r]))]"
    by (simp only: assms(8))
  then show "parseContent throws (pre @ tbl @ r)
      = parseContent throws (butlast pre)
        @ [Table (parseCells h) (map parseCells (rows @ [r]))]"
    by (simp only: unmarked_content [OF hm] text_before_content [OF assms(7) hm])
qed

text \<open>The theorem at a table after a line of text, with a dollar in a header cell and
  an alignment colon, followed by an empty line and a line with bold, and at the same
  table with a last row not ended by a line feed; and the text of the three lines
  \<^verbatim>\<open>| a | b |\<close>, \<^verbatim>\<open>|---|---|\<close>, \<^verbatim>\<open>| 1 | 2 |\<close>.\<close>

theorem pipe_table_extracted_witness:
  "pipeRow ''| x | $y |'' \<and> pipeRow ''|---|:--|'' \<and> list_all sepClass ''|---|:--|''
   \<and> separatorTest ''|---|:--|'' \<and> list_all pipeRow [''| 1 | 2 |'']
   \<and> last ''Results:\<newline>'' = CHR 0x0A \<and> \<not> pipeAtLineStart ''Results:\<newline>''
   \<and> \<not> startsWith ''\<newline>done **now**'' ''|'' \<and> pipeRow ''| 3 |''
   \<and> \<not> hasMarker ''Results:\<newline>| x | $y |\<newline>|---|:--|\<newline>| 1 | 2 |\<newline>\<newline>done **now**''
   \<and> \<not> hasMarker ''Results:\<newline>| x | $y |\<newline>|---|:--|\<newline>| 1 | 2 |\<newline>| 3 |''
   \<and> parseContent noThrow ''Results:\<newline>| x | $y |\<newline>|---|:--|\<newline>| 1 | 2 |\<newline>\<newline>done **now**''
       = parseContent noThrow ''Results:'' @ [Table [''x'', ''$y''] [[''1'', ''2'']]]
         @ parseContent noThrow ''\<newline>done **now**''
   \<and> parseContent noThrow ''Results:\<newline>| x | $y |\<newline>|---|:--|\<newline>| 1 | 2 |\<newline>| 3 |''
       = parseContent noThrow ''Results:'' @ [Table [''x'', ''$y''] [[''1'', ''2''], [''3'']]]
   \<and> parseContent noThrow ''Results:'' = [PlainText ''Results:'']
   \<and> parseContent noThrow ''\<newline>done **now**'' = [LineBreak, PlainText ''done '', Bold ''now'']
   \<and> parseContent noThrow ''| a | b |\<newline>|---|---|\<newline>| 1 | 2 |\<newline>''
       = [Table [''a'', ''b''] [[''1'', ''2'']]]"
proof -
  have a: "pipeRow ''| x | $y |''" "pipeRow ''|---|:--|''" "list_all sepClass ''|---|:--|''"
    "separatorTest ''|---|:--|''" "list_all pipeRow [''| 1 | 2 |'']"
    "''Results:\<newline>'' = [] \<or> last ''Results:\<newline>'' = CHR 0x0A"
    "\<not> pipeAtLineStart ''Results:\<newline>''"
    by code_simp+
  have b: "\<not> startsWith ''\<newline>done **now**'' ''|''" "pipeRow ''| 3 |''"
    "\<not> hasMarker ''Results:\<newline>| x | $y |\<newline>|---|:--|\<newline>| 1 | 2 |\<newline>\<newline>done **now**''"
    "\<not> hasMarker ''Results:\<newline>| x | $y |\<newline>|---|:--|\<newline>| 1 | 2 |\<newline>| 3 |''"
    by code_simp+
  have c: "parseCells ''| x | $y |'' = [''x'', ''$y'']" "parseCells ''| 1 | 2 |'' = [''1'', ''2'']"
    "parseCells ''| 3 |'' = [''3'']"
    "parseContent noThrow ''Results:'' = [PlainText ''Results:'']"
    "parseContent noThrow ''\<newline>done **now**'' = [LineBreak, PlainText ''done '', Bold ''now'']"
    by code_simp+
  have d: "pipeRow ''| a | b |''" "pipeRow ''|---|---|''" "list_all sepClass ''|---|---|''"
    "separatorTest ''|---|---|''" "list_all pipeRow [''| 1 | 2 |'']"
    "[] = [] \<or> last [] = CHR 0x0A" "\<not> pipeAtLineStart []"
    by code_simp+
  have e: "\<not> startsWith [] ''|''"
    "\<not> hasMarker ''| a | b |\<newline>|---|---|\<newline>| 1 | 2 |\<newline>''"
    "parseCells ''| a | b |'' = [''a'', ''b'']" "parseContent noThrow [] = []"
    by code_simp+
  have x: "parseContent noThrow ''| a | b |\<newline>|---|---|\<newline>| 1 | 2 |\<newline>''
       = [Table [''a'', ''b''] [[''1'', ''2'']]]"
    using pipe_table_extracted [OF d refl, of "[]" noThrow] e c by simp
  from pipe_table_extracted [OF a refl, of "''\<newline>done **now**''" noThrow "''| 3 |''"] a b c x
  show ?thesis by simp
qed

text \<open>Lines that have pipes inside but do not start with one are no table: the text
  of the three lines \<^verbatim>\<open>a | b\<close>, \<^verbatim>\<open>---|---\<close>, \<^verbatim>\<open>1 | 2\<close> stays plain text.\<close>

theorem table_without_outer_pipes_counterexample:
  "parseContent noThrow ''a | b\<newline>---|---\<newline>1 | 2\<newline>'' =
     [PlainText ''a | b'', LineBreak, PlainText ''---|---'', LineBreak, PlainText ''1 | 2'', LineBreak]"
  by code_simp

text \<open>
  C8. The parser is defined on every text: each loop of the source is a recursive
  function whose termination is proved above, from the fact that every match of
  each of the seven expressions consumes one character or more and stays inside the
  text, and both branches of each \<^verbatim>\<open>try\<close> are results. Its result is always a sequence
  of well-formed nodes, for any behaviour of the math element constructor, and the
  result for the empty text is the empty sequence.
\<close>

theorem parser_total_valid:
  "list_all validNode (parseContent throws t)
   \<and> parseContent throws [] = []
   \<and> (case blockRegex s of None \<Rightarrow> True | Some n \<Rightarrow> 0 < n \<and> n \<le> length s)
   \<and> (case tableRegex i s of None \<Rightarrow> True | Some n \<Rightarrow> 0 < n \<and> n \<le> length s)
   \<and> (case inlineMathRegex i s of None \<Rightarrow> True | Some (n, gs) \<Rightarrow> 0 < n \<and> n \<le> length s)
   \<and> (case regex p i s of None \<Rightarrow> True | Some (n, gs) \<Rightarrow> 0 < n \<and> n \<le> length s)"
proof -
  have "list_all validNode (concat (map (partElements throws) ps))" for ps
    by (induction ps) (simp_all add: partElements_valid)
  then have "list_all validNode (parseContent throws t)" by (simp add: parseContent_def)
  moreover have "parseContent throws [] = []"
    by (simp add: no_dollar_no_pipe parseMarkdown_Nil)
  moreover have "case blockRegex s of None \<Rightarrow> True | Some n \<Rightarrow> 0 < n \<and> n \<le> length s"
    using blockRegex_bounds [of s] by (cases "blockRegex s") auto
  moreover have "case tableRegex i s of None \<Rightarrow> True | Some n \<Rightarrow> 0 < n \<and> n \<le> length s"
    using tableRegex_bounds [of i s] by (cases "tableRegex i s") auto
  moreover have "case inlineMathRegex i s of None \<Rightarrow> True | Some (n, gs) \<Rightarrow> 0 < n \<and> n \<le> length s"
    using inlineMathRegex_bounds [of i s] by (cases "inlineMathRegex i s") auto
  moreover have "case regex p i s of None \<Rightarrow> True | Some (n, gs) \<Rightarrow> 0 < n \<and> n \<le> length s"
    using regex_bounds [of p i s] by (cases "regex p i s") auto
  ultimately show ?thesis by blast
qed

end
